theory Spec2Isabelle
  imports Complex_Main
begin

section \<open>Track-change extension: constants and the minute clock\<close>

text \<open>
  The extension lives in \<^verbatim>\<open>src/src/index.ts\<close>; a second variant of the same file,
  with a different \<^verbatim>\<open>appendTransaction\<close>, is \<^verbatim>\<open>src/unnamed/part_000\<close>.
  Everything up to \<^verbatim>\<open>addProseMirrorPlugins\<close> is identical in the two files.
\<close>

definition MARK_DELETION :: string where
  "MARK_DELETION = ''deletion''"

definition MARK_INSERTION :: string where
  "MARK_INSERTION = ''insertion''"

text \<open>
  \<^verbatim>\<open>const getMinuteTime = () => Math.round(new Date().getTime() / 1000 / 60) * 1000 * 60\<close>

  The clock reading \<^verbatim>\<open>new Date().getTime()\<close> (whole milliseconds) is the argument.
  \<^verbatim>\<open>Math.round\<close> rounds to the nearest integer, a half going up. The two divisions are
  taken exactly: for a reading below \<open>4.5 * 10^15\<close> in size the double-precision quotient
  lies on the same side of every half-integer as the exact one, so the rounded value is the
  same.
\<close>

definition Math_round :: "real \<Rightarrow> int" where
  "Math_round x = \<lfloor>x + 1 / 2\<rfloor>"

definition getMinuteTime :: "int \<Rightarrow> int" where
  "getMinuteTime now = Math_round (of_int now / 1000 / 60) * 1000 * 60"

section \<open>The host document model\<close>

text \<open>
  The extension works on a ProseMirror document through the host editor. The host is
  modelled for a document whose top node holds inline text directly, so that positions
  run from \<open>0\<close> to the content size and every position is a text position. A
  document is the list of its characters, each with the marks it carries, in the order
  the schema ranks them; a text node is a maximal run of characters with the same marks.
  Host calls that raise in the library (a position outside the document) return
  \<open>Inl\<close>.
\<close>

datatype jsval = JUndefined | JString string | JNumber int

type_synonym attrs = "(string \<times> jsval) list"

datatype mark = Mark (mark_name: string) (mark_attrs: attrs)

type_synonym tchar = "char \<times> mark list"

type_synonym doc = "tchar list"

datatype error = RangeError | TypeError

datatype MarkRange = MarkRange (range_from: int) (range_to: int) (range_mark: mark)

datatype step =
    ReplaceStep (step_from: int) (step_to: int) (step_slice: doc)
  | AddMarkStep int int mark
  | RemoveMarkStep int int string

datatype metaval = MetaBool bool | MetaObject | MetaSync (isChangeOrigin: bool)

text \<open>
  A transaction: the document it has reached, its steps (each with the document it was
  applied to, \<^verbatim>\<open>tr.docs[i]\<close>), its metadata and the selection set on it, if any.
  \<^verbatim>\<open>tr.docChanged\<close> is \<^verbatim>\<open>tr.steps.length > 0\<close> in the host. A metadata value is a
  boolean, the object the sync plugin stores under \<^verbatim>\<open>y-sync$\<close> (with its
  \<^verbatim>\<open>isChangeOrigin\<close>), or some other object.
\<close>

record Transaction =
  tr_doc :: doc
  tr_steps :: "(step \<times> doc) list"
  tr_meta :: "(string \<times> metaval) list"
  tr_selection :: "(int \<times> int) option"

record EditorState =
  state_doc :: doc
  selection_from :: int
  selection_to :: int
  storedMarks :: "mark list option"

definition contentSize :: "doc \<Rightarrow> int" where
  "contentSize d = int (length d)"

definition nodeSize :: "doc \<Rightarrow> int" where
  "nodeSize node = int (length node)"

definition nodeMarks :: "doc \<Rightarrow> mark list" where
  "nodeMarks node = (case node of [] \<Rightarrow> [] | ch # _ \<Rightarrow> snd ch)"

text \<open>The text nodes of the content, in document order.\<close>

function content :: "doc \<Rightarrow> doc list" where
  "content [] = []"
| "content (ch # d) =
     (ch # takeWhile (\<lambda>x. snd x = snd ch) d) # content (dropWhile (\<lambda>x. snd x = snd ch) d)"
  by pat_completeness auto
termination
  by (relation "measure length") (auto simp: length_dropWhile_le less_Suc_eq_le)

text \<open>
  \<^verbatim>\<open>Fragment.nodesBetween(from, to, f)\<close>: the loop
  \<^verbatim>\<open>for (let i = 0, pos = 0; pos < to; i++) { let child = this.content[i], end = pos + child.nodeSize; if (end > from) f(child, pos); pos = end }\<close>.
  Running past the last child reads \<^verbatim>\<open>nodeSize\<close> of \<^verbatim>\<open>undefined\<close>.
\<close>

fun nodesBetweenFrom :: "int \<Rightarrow> int \<Rightarrow> int \<Rightarrow> doc list \<Rightarrow> error + (int \<times> doc) list" where
  "nodesBetweenFrom pos from to [] = (if pos < to then Inl TypeError else Inr [])"
| "nodesBetweenFrom pos from to (child # rest) =
     (if pos < to then
        (case nodesBetweenFrom (pos + nodeSize child) from to rest of
           Inl e \<Rightarrow> Inl e
         | Inr visited \<Rightarrow>
             Inr (if from < pos + nodeSize child then (pos, child) # visited else visited))
      else Inr [])"

definition nodesBetween :: "int \<Rightarrow> int \<Rightarrow> doc \<Rightarrow> error + (int \<times> doc) list" where
  "nodesBetween from to d = nodesBetweenFrom 0 from to (content d)"

definition charMarks :: "doc \<Rightarrow> int \<Rightarrow> mark list option" where
  "charMarks d i = (if 0 \<le> i \<and> i < contentSize d then Some (snd (d ! nat i)) else None)"

text \<open>
  \<^verbatim>\<open>$pos.marks()\<close>: the marks of the node before the position, of the node after it when
  there is none before, and no marks in an empty parent (the track marks are inclusive).
\<close>

definition resolvedMarks :: "int \<Rightarrow> doc \<Rightarrow> mark list" where
  "resolvedMarks pos d =
     (case charMarks d (pos - 1) of
        Some ms \<Rightarrow> ms
      | None \<Rightarrow> (case charMarks d pos of Some ms \<Rightarrow> ms | None \<Rightarrow> []))"

text \<open>
  \<^verbatim>\<open>isMarkActive(state, name)\<close> on an empty selection (the only way \<^verbatim>\<open>changeTrack\<close>
  calls it): \<^verbatim>\<open>(state.storedMarks || $from.marks())\<close> holds a mark of that type.
\<close>

definition isMarkActive :: "EditorState \<Rightarrow> string \<Rightarrow> bool" where
  "isMarkActive st type =
     list_ex (\<lambda>m. mark_name m = type)
       (case storedMarks st of
          Some ms \<Rightarrow> ms
        | None \<Rightarrow> resolvedMarks (selection_from st) (state_doc st))"

definition attrOf :: "attrs \<Rightarrow> string \<Rightarrow> jsval" where
  "attrOf obj key = (case map_of obj key of None \<Rightarrow> JUndefined | Some v \<Rightarrow> v)"

definition objectIncludes :: "attrs \<Rightarrow> attrs \<Rightarrow> bool" where
  "objectIncludes obj1 obj2 = list_all (\<lambda>key. attrOf obj2 key = attrOf obj1 key) (map fst obj2)"

definition isMarkInSet :: "mark list \<Rightarrow> string \<Rightarrow> attrs \<Rightarrow> bool" where
  "isMarkInSet marks type attributes =
     list_ex (\<lambda>item. mark_name item = type \<and> objectIncludes (mark_attrs item) attributes) marks"

text \<open>
  \<^verbatim>\<open>getMarkRange($pos, type)\<close>: start from the node after the position, or the node
  before it when that one has no mark of the type; match on the attributes of the start
  node's first mark; extend over the neighbouring nodes that hold a matching mark.
\<close>

definition getMarkRange :: "int \<Rightarrow> string \<Rightarrow> doc \<Rightarrow> (int \<times> int) option" where
  "getMarkRange pos type d =
     (let hasType = (\<lambda>i. case charMarks d i of
                            None \<Rightarrow> False
                          | Some ms \<Rightarrow> list_ex (\<lambda>m. mark_name m = type) ms);
          start = (if hasType pos then pos else pos - 1)
      in case charMarks d start of
           None \<Rightarrow> None
         | Some marks \<Rightarrow>
             if \<not> hasType start then None
             else
               (let attributes = (case marks of [] \<Rightarrow> [] | m # _ \<Rightarrow> mark_attrs m);
                    matching = (\<lambda>ch. isMarkInSet (snd ch) type attributes)
                in if \<not> isMarkInSet marks type attributes then None
                   else Some (start - int (length (takeWhile matching (rev (take (nat start) d)))),
                              start + int (length (takeWhile matching (drop (nat start) d))))))"

text \<open>
  \<^verbatim>\<open>getMarksBetween(from, to, doc)\<close>: on an empty range the marks at the position, each
  with its mark range; otherwise one range per mark of every node that
  \<^verbatim>\<open>nodesBetween\<close> visits, spanning the whole node.
\<close>

definition getMarksBetween :: "int \<Rightarrow> int \<Rightarrow> doc \<Rightarrow> error + MarkRange list" where
  "getMarksBetween from to d =
     (if from = to then
        (if 0 \<le> from \<and> from \<le> contentSize d then
           Inr (concat (map (\<lambda>m. case getMarkRange from (mark_name m) d of
                                    None \<Rightarrow> []
                                  | Some (f, t) \<Rightarrow> [MarkRange f t m])
                        (resolvedMarks from d)))
         else Inl RangeError)
      else
        (case nodesBetween from to d of
           Inl e \<Rightarrow> Inl e
         | Inr visited \<Rightarrow>
             Inr (concat (map (\<lambda>(pos, node). map (MarkRange pos (pos + nodeSize node)) (nodeMarks node))
                          visited))))"

text \<open>Applying a function to the characters at the positions \<open>from \<le> i < to\<close>.\<close>

definition mapRange :: "(tchar \<Rightarrow> tchar) \<Rightarrow> int \<Rightarrow> int \<Rightarrow> doc \<Rightarrow> doc" where
  "mapRange f from to d =
     (if from < to then
        take (nat from) d @ map f (take (nat to - nat from) (drop (nat from) d)) @ drop (nat to) d
      else d)"

definition withoutMarkType :: "string \<Rightarrow> tchar \<Rightarrow> tchar" where
  "withoutMarkType type ch = (fst ch, filter (\<lambda>m. mark_name m \<noteq> type) (snd ch))"

text \<open>
  \<^verbatim>\<open>tr.removeMark(from, to, markType)\<close> walks \<^verbatim>\<open>nodesBetween(from, to)\<close> and takes every
  mark of the type off the inline nodes in the range. The host adds one step for each run
  it found; the model adds one step for the call when it found any, which is all that
  \<^verbatim>\<open>tr.steps.length\<close> shows.
\<close>

definition removeMark :: "int \<Rightarrow> int \<Rightarrow> string \<Rightarrow> Transaction \<Rightarrow> error + Transaction" where
  "removeMark from to type tr =
     (case nodesBetween from to (tr_doc tr) of
        Inl e \<Rightarrow> Inl e
      | Inr visited \<Rightarrow>
          (let d = mapRange (withoutMarkType type) from to (tr_doc tr)
           in Inr (if d = tr_doc tr then tr
                   else tr\<lparr>tr_doc := d,
                           tr_steps := tr_steps tr @ [(RemoveMarkStep from to type, tr_doc tr)]\<rparr>)))"

text \<open>
  \<^verbatim>\<open>tr.deleteRange(from, to)\<close> resolves both positions (a position outside the document
  is a RangeError) and deletes the content between them; an empty range adds no step.
\<close>

definition deleteRange :: "int \<Rightarrow> int \<Rightarrow> Transaction \<Rightarrow> error + Transaction" where
  "deleteRange from to tr =
     (let d = tr_doc tr
      in if 0 \<le> from \<and> from \<le> to \<and> to \<le> contentSize d then
           Inr (if from = to then tr
                else tr\<lparr>tr_doc := take (nat from) d @ drop (nat to) d,
                        tr_steps := tr_steps tr @ [(ReplaceStep from to [], d)]\<rparr>)
         else Inl RangeError)"

definition setMeta :: "string \<Rightarrow> metaval \<Rightarrow> Transaction \<Rightarrow> Transaction" where
  "setMeta key v tr = tr\<lparr>tr_meta := (key, v) # tr_meta tr\<rparr>"

definition getMeta :: "Transaction \<Rightarrow> string \<Rightarrow> metaval option" where
  "getMeta tr key = map_of (tr_meta tr) key"

text \<open>\<^verbatim>\<open>state.tr\<close>: a new transaction on the state's document.\<close>

definition state_tr :: "EditorState \<Rightarrow> Transaction" where
  "state_tr st = \<lparr>tr_doc = state_doc st, tr_steps = [], tr_meta = [], tr_selection = None\<rparr>"

section \<open>The resolution engine: \<^verbatim>\<open>changeTrack\<close>\<close>

datatype TRACK_COMMAND_TYPE =
    TRACK_COMMAND_ACCEPT
  | TRACK_COMMAND_ACCEPT_ALL
  | TRACK_COMMAND_REJECT
  | TRACK_COMMAND_REJECT_ALL

text \<open>
  Lines 149 to 174 of \<^verbatim>\<open>changeTrack\<close>: the mark ranges of the scope, and the operation
  once accept-all and reject-all are turned into accept and reject. \<open>leftRange\<close> is the
  variable of that name (lines 155 to 162), \<open>None\<close> where the code leaves it undefined.
\<close>

definition leftRange :: "EditorState \<Rightarrow> (int \<times> int) option" where
  "leftRange st =
     (let isInsertBeforeCursor = isMarkActive st MARK_INSERTION;
          isDeleteBeforeCursor = isMarkActive st MARK_DELETION
      in if isInsertBeforeCursor
         then getMarkRange (selection_from st) MARK_INSERTION (state_doc st)
         else if isDeleteBeforeCursor
         then getMarkRange (selection_from st) MARK_DELETION (state_doc st)
         else None)"

definition scopeMarkRanges ::
  "TRACK_COMMAND_TYPE \<Rightarrow> EditorState \<Rightarrow> error + (MarkRange list \<times> TRACK_COMMAND_TYPE)" where
  "scopeMarkRanges opType st =
     (let from = selection_from st; to = selection_to st
      in if (opType = TRACK_COMMAND_ACCEPT \<or> opType = TRACK_COMMAND_REJECT) \<and> from = to then
           (case leftRange st of
              None \<Rightarrow> Inr ([], opType)
            | Some (leftFrom, leftTo) \<Rightarrow>
                (case getMarksBetween leftFrom leftTo (state_doc st) of
                   Inl e \<Rightarrow> Inl e
                 | Inr markRanges \<Rightarrow> Inr (markRanges, opType)))
         else if opType = TRACK_COMMAND_ACCEPT_ALL \<or> opType = TRACK_COMMAND_REJECT_ALL then
           (case getMarksBetween 0 (contentSize (state_doc st)) (state_doc st) of
              Inl e \<Rightarrow> Inl e
            | Inr markRanges \<Rightarrow>
                Inr (markRanges,
                     if opType = TRACK_COMMAND_ACCEPT_ALL then TRACK_COMMAND_ACCEPT
                     else TRACK_COMMAND_REJECT))
         else
           (case getMarksBetween from to (state_doc st) of
              Inl e \<Rightarrow> Inl e
            | Inr markRanges \<Rightarrow> Inr (markRanges, opType)))"

definition isTrackRange :: "MarkRange \<Rightarrow> bool" where
  "isTrackRange markRange =
     (mark_name (range_mark markRange) = MARK_DELETION \<or>
      mark_name (range_mark markRange) = MARK_INSERTION)"

text \<open>
  The body of \<^verbatim>\<open>markRanges.forEach\<close> (lines 194 to 207), on the transaction and the
  running offset.
\<close>

definition applyMarkRange ::
  "TRACK_COMMAND_TYPE \<Rightarrow> MarkRange \<Rightarrow> Transaction \<times> int \<Rightarrow> error + (Transaction \<times> int)" where
  "applyMarkRange opType markRange s =
     (let currentTr = fst s; offset = snd s;
          isAcceptInsert = (opType = TRACK_COMMAND_ACCEPT \<and>
                            mark_name (range_mark markRange) = MARK_INSERTION);
          isRejectDelete = (opType = TRACK_COMMAND_REJECT \<and>
                            mark_name (range_mark markRange) = MARK_DELETION)
      in if isAcceptInsert \<or> isRejectDelete then
           (case removeMark (range_from markRange - offset) (range_to markRange - offset)
                   MARK_INSERTION currentTr of
              Inl e \<Rightarrow> Inl e
            | Inr tr1 \<Rightarrow>
                (case removeMark (range_from markRange - offset) (range_to markRange - offset)
                        MARK_DELETION tr1 of
                   Inl e \<Rightarrow> Inl e
                 | Inr tr2 \<Rightarrow> Inr (tr2, offset)))
         else
           (case deleteRange (range_from markRange - offset) (range_to markRange - offset)
                   currentTr of
              Inl e \<Rightarrow> Inl e
            | Inr tr1 \<Rightarrow> Inr (tr1, offset + (range_to markRange - range_from markRange))))"

fun forEachMarkRange ::
  "TRACK_COMMAND_TYPE \<Rightarrow> MarkRange list \<Rightarrow> Transaction \<times> int \<Rightarrow> error + (Transaction \<times> int)" where
  "forEachMarkRange opType [] s = Inr s"
| "forEachMarkRange opType (markRange # rest) s =
     (case applyMarkRange opType markRange s of
        Inl e \<Rightarrow> Inl e
      | Inr s' \<Rightarrow> forEachMarkRange opType rest s')"

text \<open>
  \<^verbatim>\<open>changeTrack(opType, param)\<close>: the state is \<^verbatim>\<open>param.editor.state\<close>, the transaction
  \<^verbatim>\<open>param.tr\<close>; the result is the returned boolean and the transaction as the call
  leaves it.
\<close>

definition changeTrack ::
  "TRACK_COMMAND_TYPE \<Rightarrow> EditorState \<Rightarrow> Transaction \<Rightarrow> error + (bool \<times> Transaction)" where
  "changeTrack opType0 st tr =
     (case scopeMarkRanges opType0 st of
        Inl e \<Rightarrow> Inl e
      | Inr (gathered, opType) \<Rightarrow>
          (let markRanges = filter isTrackRange gathered
           in if markRanges = [] then Inr (False, tr)
              else
                (case forEachMarkRange opType markRanges (tr, 0) of
                   Inl e \<Rightarrow> Inl e
                 | Inr (currentTr, offset) \<Rightarrow>
                     Inr (True,
                          if tr_steps currentTr \<noteq> []
                          then setMeta ''trackManualChanged'' (MetaBool True) currentTr
                          else currentTr))))"

section \<open>The command surface\<close>

text \<open>
  \<^verbatim>\<open>getSelfExt\<close> looks the extension up by name in \<^verbatim>\<open>editor.extensionManager.extensions\<close>;
  the cast \<^verbatim>\<open>as Extension\<close> hides that \<^verbatim>\<open>find\<close> may return \<^verbatim>\<open>undefined\<close>, in which
  case reading \<^verbatim>\<open>.options\<close> raises a TypeError. The options are mutated in place, so an
  assignment changes the item found in the list. \<open>onStatusChange\<close> tells whether a
  callback is configured; the calls made to it are recorded in \<open>statusChanges\<close>. A command
  returns its boolean and the props as it leaves them (the options, the transaction).
\<close>

definition EXTENSION_NAME :: string where
  "EXTENSION_NAME = ''trackchange''"

record TrackChangeOptions =
  enabled :: bool
  onStatusChange :: bool
  dataOpUserId :: jsval
  dataOpUserNickname :: jsval

record ExtensionItem =
  item_type :: string
  item_name :: string
  options :: TrackChangeOptions

record Editor =
  extensions :: "ExtensionItem list"
  editor_state :: EditorState
  statusChanges :: "bool list"

record CommandProps =
  props_editor :: Editor
  props_tr :: Transaction

definition isSelfExt :: "ExtensionItem \<Rightarrow> bool" where
  "isSelfExt item = (item_type item = ''extension'' \<and> item_name item = EXTENSION_NAME)"

definition getSelfExt :: "Editor \<Rightarrow> ExtensionItem option" where
  "getSelfExt ed = find isSelfExt (extensions ed)"

fun updateFirst :: "('a \<Rightarrow> bool) \<Rightarrow> ('a \<Rightarrow> 'a) \<Rightarrow> 'a list \<Rightarrow> 'a list" where
  "updateFirst P f [] = []"
| "updateFirst P f (x # xs) = (if P x then f x # xs else x # updateFirst P f xs)"

definition assignOptions :: "(TrackChangeOptions \<Rightarrow> TrackChangeOptions) \<Rightarrow> Editor \<Rightarrow> Editor" where
  "assignOptions f ed =
     ed\<lparr>extensions := updateFirst isSelfExt (\<lambda>item. item\<lparr>options := f (options item)\<rparr>) (extensions ed)\<rparr>"

definition notifyStatusChange :: "Editor \<Rightarrow> Editor" where
  "notifyStatusChange ed =
     (case getSelfExt ed of
        None \<Rightarrow> ed
      | Some thisExtension \<Rightarrow>
          if onStatusChange (options thisExtension)
          then ed\<lparr>statusChanges := statusChanges ed @ [enabled (options thisExtension)]\<rparr>
          else ed)"

definition setTrackChangeStatus :: "bool \<Rightarrow> CommandProps \<Rightarrow> error + (bool \<times> CommandProps)" where
  "setTrackChangeStatus value param =
     (case getSelfExt (props_editor param) of
        None \<Rightarrow> Inl TypeError
      | Some thisExtension \<Rightarrow>
          Inr (False,
               param\<lparr>props_editor :=
                 notifyStatusChange (assignOptions (\<lambda>opts. opts\<lparr>enabled := value\<rparr>) (props_editor param))\<rparr>))"

definition toggleTrackChangeStatus :: "CommandProps \<Rightarrow> error + (bool \<times> CommandProps)" where
  "toggleTrackChangeStatus param =
     (case getSelfExt (props_editor param) of
        None \<Rightarrow> Inl TypeError
      | Some thisExtension \<Rightarrow>
          Inr (False,
               param\<lparr>props_editor :=
                 notifyStatusChange
                   (assignOptions (\<lambda>opts. opts\<lparr>enabled := \<not> enabled opts\<rparr>) (props_editor param))\<rparr>))"

definition getTrackChangeStatus :: "CommandProps \<Rightarrow> error + (bool \<times> CommandProps)" where
  "getTrackChangeStatus param =
     (case getSelfExt (props_editor param) of
        None \<Rightarrow> Inl TypeError
      | Some thisExtension \<Rightarrow> Inr (enabled (options thisExtension), param))"

text \<open>
  The four resolution commands are \<^verbatim>\<open>changeTrack(op, param); return false\<close>.
\<close>

definition runChangeTrack :: "TRACK_COMMAND_TYPE \<Rightarrow> CommandProps \<Rightarrow> error + (bool \<times> CommandProps)" where
  "runChangeTrack opType param =
     (case changeTrack opType (editor_state (props_editor param)) (props_tr param) of
        Inl e \<Rightarrow> Inl e
      | Inr (changed, currentTr) \<Rightarrow> Inr (False, param\<lparr>props_tr := currentTr\<rparr>))"

definition acceptChange :: "CommandProps \<Rightarrow> error + (bool \<times> CommandProps)" where
  "acceptChange param = runChangeTrack TRACK_COMMAND_ACCEPT param"

definition acceptAllChanges :: "CommandProps \<Rightarrow> error + (bool \<times> CommandProps)" where
  "acceptAllChanges param = runChangeTrack TRACK_COMMAND_ACCEPT_ALL param"

definition rejectChange :: "CommandProps \<Rightarrow> error + (bool \<times> CommandProps)" where
  "rejectChange param = runChangeTrack TRACK_COMMAND_REJECT param"

definition rejectAllChanges :: "CommandProps \<Rightarrow> error + (bool \<times> CommandProps)" where
  "rejectAllChanges param = runChangeTrack TRACK_COMMAND_REJECT_ALL param"

definition updateOpUserOption :: "string \<Rightarrow> string \<Rightarrow> CommandProps \<Rightarrow> error + (bool \<times> CommandProps)" where
  "updateOpUserOption opUserId opUserNickname param =
     (case getSelfExt (props_editor param) of
        None \<Rightarrow> Inl TypeError
      | Some thisExtension \<Rightarrow>
          Inr (False,
               param\<lparr>props_editor :=
                 assignOptions (\<lambda>opts. opts\<lparr>dataOpUserId := JString opUserId,
                                             dataOpUserNickname := JString opUserNickname\<rparr>)
                   (props_editor param)\<rparr>))"

section \<open>The track interceptor: \<^verbatim>\<open>appendTransaction\<close>\<close>

text \<open>
  Sequencing of host calls that can raise: the first error ends the computation.
\<close>

definition thenE :: "error + 'a \<Rightarrow> ('a \<Rightarrow> error + 'b) \<Rightarrow> error + 'b" where
  "thenE r f = (case r of Inl e \<Rightarrow> Inl e | Inr x \<Rightarrow> f x)"

text \<open>
  \<^verbatim>\<open>mark.addToSet(set)\<close>: a set that holds the mark stays as it is; otherwise the mark
  replaces a mark of its own type (a mark type excludes itself) and takes its place by
  rank. The extension registers \<^verbatim>\<open>[InsertionMark, DeletionMark]\<close>, so the insertion type
  ranks before the deletion type; other marks are ranked after both.
\<close>

definition markRank :: "string \<Rightarrow> nat" where
  "markRank name = (if name = MARK_INSERTION then 0 else if name = MARK_DELETION then 1 else 2)"

fun insertByRank :: "mark \<Rightarrow> mark list \<Rightarrow> mark list" where
  "insertByRank m [] = [m]"
| "insertByRank m (other # rest) =
     (if markRank (mark_name m) < markRank (mark_name other) then m # other # rest
      else other # insertByRank m rest)"

definition addToSet :: "mark \<Rightarrow> mark list \<Rightarrow> mark list" where
  "addToSet m ms =
     (if List.member ms m then ms
      else insertByRank m (filter (\<lambda>other. mark_name other \<noteq> mark_name m) ms))"

definition withMark :: "mark \<Rightarrow> tchar \<Rightarrow> tchar" where
  "withMark m ch = (fst ch, addToSet m (snd ch))"

text \<open>
  \<^verbatim>\<open>tr.addMark(from, to, mark)\<close> walks \<^verbatim>\<open>nodesBetween(from, to)\<close> and adds the mark to the
  inline nodes in the range that do not hold it. As for \<^verbatim>\<open>removeMark\<close>, the model adds
  one step for a call that changed the document.
\<close>

definition addMark :: "int \<Rightarrow> int \<Rightarrow> mark \<Rightarrow> Transaction \<Rightarrow> error + Transaction" where
  "addMark from to m tr =
     (case nodesBetween from to (tr_doc tr) of
        Inl e \<Rightarrow> Inl e
      | Inr visited \<Rightarrow>
          (let d = mapRange (withMark m) from to (tr_doc tr)
           in Inr (if d = tr_doc tr then tr
                   else tr\<lparr>tr_doc := d,
                           tr_steps := tr_steps tr @ [(AddMarkStep from to m, tr_doc tr)]\<rparr>)))"

text \<open>
  \<^verbatim>\<open>tr.insert(pos, content)\<close> resolves the position (a RangeError outside the document)
  and puts the content there, with the marks it has.
\<close>

definition tr_insert :: "int \<Rightarrow> doc \<Rightarrow> Transaction \<Rightarrow> error + Transaction" where
  "tr_insert pos fragment tr =
     (let d = tr_doc tr
      in if 0 \<le> pos \<and> pos \<le> contentSize d then
           Inr (if fragment = [] then tr
                else tr\<lparr>tr_doc := take (nat pos) d @ fragment @ drop (nat pos) d,
                        tr_steps := tr_steps tr @ [(ReplaceStep pos pos fragment, d)]\<rparr>)
         else Inl RangeError)"

text \<open>
  \<^verbatim>\<open>doc.slice(from, to)\<close>, the content between two positions of a document. The
  inverse of a replace step on \<^verbatim>\<open>docs[i]\<close> has \<^verbatim>\<open>docs[i].slice(step.from, step.to)\<close> as
  its slice and \<^verbatim>\<open>step.from\<close> as its start.
\<close>

definition docSlice :: "int \<Rightarrow> int \<Rightarrow> doc \<Rightarrow> error + doc" where
  "docSlice from to d =
     (if 0 \<le> from \<and> from \<le> to \<and> to \<le> contentSize d
      then Inr (take (nat to - nat from) (drop (nat from) d))
      else Inl RangeError)"

text \<open>
  \<^verbatim>\<open>step.getMap().map(pos, assoc)\<close> for a replace step, whose map has the one range
  \<^verbatim>\<open>[from, to - from, slice.size]\<close>; the other steps map every position to itself.
\<close>

definition stepMap_map :: "step \<Rightarrow> int \<Rightarrow> int \<Rightarrow> int" where
  "stepMap_map s pos assoc =
     (case s of
        ReplaceStep start to slice \<Rightarrow>
          (let oldSize = to - start; newSize = contentSize slice; end = start + oldSize
           in if pos < start then pos
              else if pos \<le> end then
                (let side = (if oldSize = 0 then assoc
                             else if pos = start then - 1
                             else if pos = end then 1 else assoc)
                 in start + (if side < 0 then 0 else newSize))
              else pos + (newSize - oldSize))
      | _ \<Rightarrow> pos)"

text \<open>
  \<^verbatim>\<open>selection.map(doc, mapping)\<close> maps the ends of the selection with
  \<^verbatim>\<open>mapping.map(pos)\<close> and resolves them in \<^verbatim>\<open>doc\<close>. An argument that the call leaves
  out is \<open>None\<close>: reading \<^verbatim>\<open>mapping.map\<close> then raises a TypeError.
\<close>

definition Selection_map ::
  "'a \<Rightarrow> (int \<Rightarrow> int) option \<Rightarrow> EditorState \<Rightarrow> error + (int \<times> int)" where
  "Selection_map newDoc mapping st =
     (case mapping of
        None \<Rightarrow> Inl TypeError
      | Some f \<Rightarrow> Inr (f (selection_from st), f (selection_to st)))"

definition setSelection :: "int \<times> int \<Rightarrow> Transaction \<Rightarrow> Transaction" where
  "setSelection sel tr = tr\<lparr>tr_selection := Some sel\<rparr>"

text \<open>
  Metadata as the interceptors read it: \<^verbatim>\<open>tr.getMeta(key)\<close> used as a condition, and
  \<^verbatim>\<open>syncMeta && syncMeta.isChangeOrigin\<close>.
\<close>

definition truthy :: "metaval option \<Rightarrow> bool" where
  "truthy v = (case v of None \<Rightarrow> False | Some (MetaBool b) \<Rightarrow> b | Some _ \<Rightarrow> True)"

definition isChangeOriginMeta :: "metaval option \<Rightarrow> bool" where
  "isChangeOriginMeta syncMeta = (case syncMeta of Some (MetaSync b) \<Rightarrow> b | _ \<Rightarrow> False)"

definition docChanged :: "Transaction \<Rightarrow> bool" where
  "docChanged tr = (tr_steps tr \<noteq> [])"

text \<open>
  Creating a track mark: an attribute given as \<^verbatim>\<open>undefined\<close> takes the default of the
  mark's declaration, the empty string. \<open>orElse\<close> is \<^verbatim>\<open>value || fallback\<close>.
\<close>

definition attrDefault :: "jsval \<Rightarrow> jsval" where
  "attrDefault v = (if v = JUndefined then JString [] else v)"

definition orElse :: "jsval \<Rightarrow> string \<Rightarrow> jsval" where
  "orElse v fallback =
     (if v = JUndefined \<or> v = JString [] \<or> v = JNumber 0 then JString fallback else v)"

definition createMark :: "string \<Rightarrow> jsval \<Rightarrow> jsval \<Rightarrow> jsval \<Rightarrow> mark" where
  "createMark name userId nickname date =
     Mark name [(''data-op-user-id'', attrDefault userId),
                (''data-op-user-nickname'', attrDefault nickname),
                (''data-op-date'', attrDefault date)]"

text \<open>
  The composition flags of lines 118 to 124 and the three handlers that write them:
  \<^verbatim>\<open>compositionstart\<close>, \<^verbatim>\<open>compositionupdate\<close> and the \<^verbatim>\<open>onSelectionUpdate\<close> that
  resets them (the later of the two properties of that name). No code assigns
  \<^verbatim>\<open>IME_STATUS_START\<close> or \<^verbatim>\<open>IME_STATUS_FINISHED\<close>.
\<close>

datatype IME_STATUS_TYPE =
    IME_STATUS_NORMAL
  | IME_STATUS_START
  | IME_STATUS_CONTINUE
  | IME_STATUS_FINISHED

record ImeState =
  composingStatus :: IME_STATUS_TYPE
  isStartChineseInput :: bool

definition initialIme :: ImeState where
  "initialIme = \<lparr>composingStatus = IME_STATUS_NORMAL, isStartChineseInput = False\<rparr>"

definition compositionstart :: "ImeState \<Rightarrow> ImeState" where
  "compositionstart ime = ime\<lparr>isStartChineseInput := True\<rparr>"

definition compositionupdate :: "ImeState \<Rightarrow> ImeState" where
  "compositionupdate ime = ime\<lparr>composingStatus := IME_STATUS_CONTINUE\<rparr>"

definition onSelectionUpdate :: "ImeState \<Rightarrow> ImeState" where
  "onSelectionUpdate ime = ime\<lparr>composingStatus := IME_STATUS_NORMAL, isStartChineseInput := False\<rparr>"

text \<open>
  \<^verbatim>\<open>appendTransaction\<close> of \<^verbatim>\<open>src/src/index.ts\<close> (lines 304 to 378). The arguments are
  what the function can read: the composition flags, \<^verbatim>\<open>extensionThis.editor\<close>, the clock,
  the transactions and the two states. The corrective transaction starts as
  \<^verbatim>\<open>newState.tr\<close>; \<open>modified\<close> travels with it through the two \<^verbatim>\<open>forEach\<close> loops.
\<close>

definition isRelevant_index :: "Transaction \<Rightarrow> bool" where
  "isRelevant_index tr =
     (if \<not> docChanged tr then False
      else if truthy (getMeta tr ''trackManualChanged'') then False
      else if truthy (getMeta tr ''history$'') then False
      else if isChangeOriginMeta (getMeta tr ''y-sync$'') then False
      else 0 < length (tr_steps tr))"

definition handleStep_index ::
  "TrackChangeOptions \<Rightarrow> int \<Rightarrow> step \<times> doc \<Rightarrow> Transaction \<times> bool \<Rightarrow> error + (Transaction \<times> bool)" where
  "handleStep_index opts now stepDoc s =
     (case fst stepDoc of
        ReplaceStep stepFrom stepTo slice \<Rightarrow>
          thenE
            (if 0 < contentSize slice then
               (let insertionMark = createMark MARK_INSERTION (dataOpUserId opts)
                                      (dataOpUserNickname opts) (JNumber (getMinuteTime now));
                    from = stepFrom;
                    to = stepFrom + contentSize slice
                in thenE (if enabled opts then addMark from to insertionMark (fst s)
                          else removeMark from to MARK_INSERTION (fst s))
                     (\<lambda>tr1. thenE (removeMark from to MARK_DELETION tr1)
                        (\<lambda>tr2. Inr (tr2, True))))
             else Inr s)
            (\<lambda>s1.
               if stepFrom \<noteq> stepTo \<and> enabled opts then
                 thenE (docSlice stepFrom stepTo (snd stepDoc))
                   (\<lambda>invertedSlice.
                      if 0 < contentSize invertedSlice then
                        (let deletionMark = createMark MARK_DELETION (dataOpUserId opts)
                                              (dataOpUserNickname opts) (JNumber (getMinuteTime now))
                         in thenE (tr_insert stepFrom invertedSlice (fst s1))
                              (\<lambda>tr3. thenE (addMark stepFrom (stepFrom + contentSize invertedSlice)
                                               deletionMark tr3)
                                 (\<lambda>tr4. Inr (tr4, True))))
                      else Inr s1)
               else Inr s1)
      | _ \<Rightarrow> Inr s)"

fun forEachStep ::
  "('s \<Rightarrow> 'a \<Rightarrow> error + 'a) \<Rightarrow> 's list \<Rightarrow> 'a \<Rightarrow> error + 'a" where
  "forEachStep f [] s = Inr s"
| "forEachStep f (x # xs) s = thenE (f x s) (forEachStep f xs)"

definition appendTransaction_index ::
  "ImeState \<Rightarrow> Editor option \<Rightarrow> int \<Rightarrow> Transaction list \<Rightarrow> EditorState \<Rightarrow> EditorState \<Rightarrow>
     error + Transaction option" where
  "appendTransaction_index ime extensionEditor now transactions oldState newState =
     (case extensionEditor of
        None \<Rightarrow> Inr None
      | Some ed \<Rightarrow>
          (case getSelfExt ed of
             None \<Rightarrow> Inl TypeError
           | Some thisExtension \<Rightarrow>
               (let relevantTransactions = filter isRelevant_index transactions
                in if length relevantTransactions = 0 then Inr None
                   else
                     thenE
                       (forEachStep
                          (\<lambda>transaction. forEachStep (handleStep_index (options thisExtension) now)
                                            (tr_steps transaction))
                          relevantTransactions (state_tr newState, False))
                       (\<lambda>(tr, modified).
                          if modified
                          then Inr (Some (setMeta ''trackManualChanged'' (MetaBool True) tr))
                          else Inr None))))"

text \<open>
  \<^verbatim>\<open>appendTransaction\<close> of \<^verbatim>\<open>src/unnamed/part_000\<close> (lines 304 to 415);
  \<^verbatim>\<open>extensionThis.options\<close> is the argument \<open>opts\<close>. \<open>processTransactions_part000\<close> is the
  loop of lines 346 to 401. Line 408 calls \<^verbatim>\<open>currentSelection.map(tr.mapping)\<close>: the
  mapping stands where the document is expected and no mapping is passed.
\<close>

definition hasRelevantChanges :: "Transaction list \<Rightarrow> bool" where
  "hasRelevantChanges transactions =
     list_ex (\<lambda>transaction.
                docChanged transaction \<and>
                \<not> truthy (getMeta transaction ''trackManualChanged'') \<and>
                \<not> truthy (getMeta transaction ''history$'') \<and>
                \<not> isChangeOriginMeta (getMeta transaction ''y-sync$''))
       transactions"

definition hasInsertionMark :: "doc \<Rightarrow> bool" where
  "hasInsertionMark deletedSlice =
     list_ex (\<lambda>node. list_ex (\<lambda>m. mark_name m = MARK_INSERTION) (nodeMarks node))
       (content deletedSlice)"

definition handleStep_part000 ::
  "bool \<Rightarrow> mark \<Rightarrow> mark \<Rightarrow> step \<times> doc \<Rightarrow> Transaction \<times> bool \<Rightarrow> error + (Transaction \<times> bool)" where
  "handleStep_part000 trackChangeEnabled insertionMark deletionMark stepDoc s =
     (case fst stepDoc of
        ReplaceStep stepFrom stepTo slice \<Rightarrow>
          thenE
            (if 0 < contentSize slice then
               (let from = stepMap_map (fst stepDoc) stepFrom (- 1);
                    to = from + contentSize slice
                in thenE (if trackChangeEnabled then addMark from to insertionMark (fst s)
                          else Inr (fst s))
                     (\<lambda>tr1. Inr (tr1, True)))
             else Inr s)
            (\<lambda>s1.
               if stepFrom \<noteq> stepTo \<and> trackChangeEnabled then
                 thenE (docSlice stepFrom stepTo (snd stepDoc))
                   (\<lambda>deletedSlice.
                      if \<not> hasInsertionMark deletedSlice \<and> 0 < contentSize deletedSlice then
                        (let insertPos = stepMap_map (fst stepDoc) stepFrom (- 1)
                         in thenE (tr_insert insertPos deletedSlice (fst s1))
                              (\<lambda>tr2. thenE (addMark insertPos (insertPos + contentSize deletedSlice)
                                               deletionMark tr2)
                                 (\<lambda>tr3. Inr (tr3, True))))
                      else Inr s1)
               else Inr s1)
      | _ \<Rightarrow> Inr s)"

definition processTransactions_part000 ::
  "TrackChangeOptions \<Rightarrow> int \<Rightarrow> Transaction list \<Rightarrow> EditorState \<Rightarrow> error + (Transaction \<times> bool)" where
  "processTransactions_part000 opts now transactions newState =
     (let insertionMark = createMark MARK_INSERTION (orElse (dataOpUserId opts) ''user'')
                            (orElse (dataOpUserNickname opts) ''User'') (JNumber (getMinuteTime now));
          deletionMark = createMark MARK_DELETION (orElse (dataOpUserId opts) ''user'')
                           (orElse (dataOpUserNickname opts) ''User'') (JNumber (getMinuteTime now))
      in forEachStep
           (\<lambda>transaction s.
              if truthy (getMeta transaction ''trackManualChanged'') \<or>
                 truthy (getMeta transaction ''history$'')
              then Inr s
              else forEachStep (handleStep_part000 (enabled opts) insertionMark deletionMark)
                     (tr_steps transaction) s)
           transactions (state_tr newState, False))"

definition appendTransaction_part000 ::
  "ImeState \<Rightarrow> TrackChangeOptions \<Rightarrow> int \<Rightarrow> Transaction list \<Rightarrow> EditorState \<Rightarrow> EditorState \<Rightarrow>
     error + Transaction option" where
  "appendTransaction_part000 ime opts now transactions oldState newState =
     (if \<not> hasRelevantChanges transactions then Inr None
      else
        thenE (processTransactions_part000 opts now transactions newState)
          (\<lambda>(tr, modified).
             if modified then
               (let tr1 = setMeta ''trackManualChanged'' (MetaBool True) tr
                in thenE (Selection_map (tr_steps tr1) None newState)
                     (\<lambda>newSelection. Inr (Some (setSelection newSelection tr1))))
             else Inr None))"

section \<open>Notions used to state the properties\<close>

text \<open>
  None of the definitions of this section is code of the extension. They name the
  positions of the text nodes, the characters that carry a track mark, and the document
  that the accept and reject policy of the specification describes.
\<close>

fun nodePositions :: "int \<Rightarrow> doc list \<Rightarrow> (int \<times> doc) list" where
  "nodePositions pos [] = []"
| "nodePositions pos (child # rest) = (pos, child) # nodePositions (pos + nodeSize child) rest"

text \<open>A character with both track marks taken off.\<close>

definition stripTrack :: "tchar \<Rightarrow> tchar" where
  "stripTrack ch = withoutMarkType MARK_DELETION (withoutMarkType MARK_INSERTION ch)"

definition hasMarkType :: "string \<Rightarrow> tchar \<Rightarrow> bool" where
  "hasMarkType type ch = list_ex (\<lambda>m. mark_name m = type) (snd ch)"

text \<open>
  The policy in the specification's words: content under a mark of the discarded kind is
  dropped, all other content stays and loses its track marks. Accept discards deletions,
  reject discards insertions.
\<close>

definition resolvedDoc :: "string \<Rightarrow> doc \<Rightarrow> doc" where
  "resolvedDoc discarded d = map stripTrack (filter (\<lambda>ch. \<not> hasMarkType discarded ch) d)"

definition discardedType :: "TRACK_COMMAND_TYPE \<Rightarrow> string" where
  "discardedType opType = (if opType = TRACK_COMMAND_ACCEPT then MARK_DELETION else MARK_INSERTION)"

definition trackFree :: "tchar \<Rightarrow> bool" where
  "trackFree ch = (\<not> hasMarkType MARK_INSERTION ch \<and> \<not> hasMarkType MARK_DELETION ch)"

text \<open>The two combinations of the policy table that keep the content.\<close>

definition keepsContent :: "TRACK_COMMAND_TYPE \<Rightarrow> mark \<Rightarrow> bool" where
  "keepsContent opType m =
     (opType = TRACK_COMMAND_ACCEPT \<and> mark_name m = MARK_INSERTION \<or>
      opType = TRACK_COMMAND_REJECT \<and> mark_name m = MARK_DELETION)"

definition isTrackMark :: "mark \<Rightarrow> bool" where
  "isTrackMark m = (mark_name m = MARK_DELETION \<or> mark_name m = MARK_INSERTION)"

definition nodeRanges :: "int \<times> doc \<Rightarrow> MarkRange list" where
  "nodeRanges v = map (MarkRange (fst v) (fst v + nodeSize (snd v))) (nodeMarks (snd v))"

definition plainText :: "string \<Rightarrow> doc" where
  "plainText s = map (\<lambda>c. (c, [])) s"

definition markedText :: "mark list \<Rightarrow> string \<Rightarrow> doc" where
  "markedText ms s = map (\<lambda>c. (c, ms)) s"

definition textOf :: "doc \<Rightarrow> string" where
  "textOf d = map fst d"

text \<open>The document of the scenario: \<open>hello world\<close> with \<open>world\<close> under a deletion mark.\<close>

definition deletionByAlice :: mark where
  "deletionByAlice = Mark MARK_DELETION
     [(''data-op-user-id'', JString ''u1''), (''data-op-user-nickname'', JString ''Alice''),
      (''data-op-date'', JNumber 0)]"

definition helloWorldDeleted :: EditorState where
  "helloWorldDeleted =
     \<lparr>state_doc = plainText ''hello '' @ markedText [deletionByAlice] ''world'',
      selection_from = 6, selection_to = 6, storedMarks = None\<rparr>"

definition insertionByAlice :: mark where
  "insertionByAlice = Mark MARK_INSERTION
     [(''data-op-user-id'', JString ''u1''), (''data-op-user-nickname'', JString ''Alice''),
      (''data-op-date'', JNumber 0)]"


definition bothMarksAB :: doc where
  "bothMarksAB = markedText [insertionByAlice, deletionByAlice] ''ab''"

definition plainHelloWorld :: EditorState where
  "plainHelloWorld =
     \<lparr>state_doc = plainText ''hello world'', selection_from = 3, selection_to = 3, storedMarks = None\<rparr>"

definition twoDeletions :: EditorState where
  "twoDeletions =
     \<lparr>state_doc = plainText ''ab'' @ markedText [deletionByAlice] ''cd'' @ plainText ''ef'' @
                  markedText [deletionByAlice] ''gh'' @ plainText ''ij'',
      selection_from = 0, selection_to = 0, storedMarks = None\<rparr>"

definition cursorInWorld :: EditorState where
  "cursorInWorld = helloWorldDeleted\<lparr>selection_from := 8, selection_to := 8\<rparr>"

definition wellFormed :: "EditorState \<Rightarrow> bool" where
  "wellFormed st =
     (0 \<le> selection_from st \<and> selection_from st \<le> selection_to st \<and>
      selection_to st \<le> contentSize (state_doc st) \<and>
      list_all (\<lambda>ch. length (filter (\<lambda>m. mark_name m = MARK_INSERTION) (snd ch)) \<le> 1 \<and>
                      length (filter (\<lambda>m. mark_name m = MARK_DELETION) (snd ch)) \<le> 1)
        (state_doc st))"

definition reviewEditor :: Editor where
  "reviewEditor =
     \<lparr>extensions =
        [\<lparr>item_type = ''mark'', item_name = MARK_INSERTION,
          options = \<lparr>enabled = False, onStatusChange = False,
                     dataOpUserId = JUndefined, dataOpUserNickname = JUndefined\<rparr>\<rparr>,
         \<lparr>item_type = ''extension'', item_name = EXTENSION_NAME,
          options = \<lparr>enabled = False, onStatusChange = True,
                     dataOpUserId = JString ''u1'', dataOpUserNickname = JString ''Alice''\<rparr>\<rparr>],
      editor_state = helloWorldDeleted,
      statusChanges = []\<rparr>"

definition reviewProps :: CommandProps where
  "reviewProps = \<lparr>props_editor = reviewEditor, props_tr = state_tr helloWorldDeleted\<rparr>"

definition aliceOptions :: TrackChangeOptions where
  "aliceOptions = \<lparr>enabled = True, onStatusChange = False,
                    dataOpUserId = JString ''u1'', dataOpUserNickname = JString ''Alice''\<rparr>"

definition trackingEditor :: "EditorState \<Rightarrow> Editor" where
  "trackingEditor st =
     \<lparr>extensions = [\<lparr>item_type = ''extension'', item_name = EXTENSION_NAME, options = aliceOptions\<rparr>],
      editor_state = st, statusChanges = []\<rparr>"

definition docState :: "doc \<Rightarrow> EditorState" where
  "docState d = \<lparr>state_doc = d, selection_from = 0, selection_to = 0, storedMarks = None\<rparr>"

definition userTransaction :: "doc \<Rightarrow> step \<Rightarrow> doc \<Rightarrow> Transaction" where
  "userTransaction oldDoc s newDoc =
     \<lparr>tr_doc = newDoc, tr_steps = [(s, oldDoc)], tr_meta = [], tr_selection = None\<rparr>"

definition catInserted :: doc where
  "catInserted = markedText [insertionByAlice] ''cat''"

definition ctInserted :: doc where
  "ctInserted = markedText [insertionByAlice] ''ct''"

definition flagged :: "Transaction \<Rightarrow> bool" where
  "flagged tr =
     (truthy (getMeta tr ''trackManualChanged'') \<or> truthy (getMeta tr ''history$'') \<or>
      isChangeOriginMeta (getMeta tr ''y-sync$''))"

definition boldMark :: mark where
  "boldMark = Mark ''bold'' []"

definition remoteInsertX :: Transaction where
  "remoteInsertX =
     \<lparr>tr_doc = plainText ''x'', tr_steps = [(ReplaceStep 0 0 (plainText ''x''), [])],
      tr_meta = [(''y-sync$'', MetaSync True)], tr_selection = None\<rparr>"

definition localBoldX :: Transaction where
  "localBoldX =
     \<lparr>tr_doc = markedText [boldMark] ''x'', tr_steps = [(AddMarkStep 0 1 boldMark, plainText ''x'')],
      tr_meta = [], tr_selection = None\<rparr>"


text \<open>A second author.\<close>

definition deletionByBob :: mark where
  "deletionByBob = Mark MARK_DELETION
     [(''data-op-user-id'', JString ''u2''), (''data-op-user-nickname'', JString ''Bob''),
      (''data-op-date'', JNumber 0)]"

text \<open>
  A selection on \<open>ab\<close>, which carries both track marks, behind \<open>xy\<close> under a deletion
  mark; and the same with the two kinds of mark exchanged. The marks of a node come in the
  order in which the host ranks the mark types, so the host has one of the two orders.
\<close>

definition selectedDoublyMarked :: EditorState where
  "selectedDoublyMarked =
     \<lparr>state_doc = markedText [deletionByAlice] ''xy'' @
                  markedText [insertionByAlice, deletionByAlice] ''ab'',
      selection_from = 2, selection_to = 4, storedMarks = None\<rparr>"

definition selectedDeletionFirst :: EditorState where
  "selectedDeletionFirst =
     \<lparr>state_doc = markedText [insertionByAlice] ''xy'' @
                  markedText [deletionByAlice, insertionByAlice] ''ab'',
      selection_from = 2, selection_to = 4, storedMarks = None\<rparr>"

text \<open>The whole of a document that carries both track marks selected.\<close>

definition bothMarksSelected :: EditorState where
  "bothMarksSelected =
     \<lparr>state_doc = bothMarksAB, selection_from = 0, selection_to = 2, storedMarks = None\<rparr>"

text \<open>The cursor between \<open>ab\<close>, deleted by Alice, and \<open>cd\<close>, deleted by Bob.\<close>

definition cursorBetweenRuns :: EditorState where
  "cursorBetweenRuns =
     \<lparr>state_doc = markedText [deletionByAlice] ''ab'' @ markedText [deletionByBob] ''cd'',
      selection_from = 2, selection_to = 2, storedMarks = None\<rparr>"

text \<open>
  The operation that the loop applies, and the range that \<^verbatim>\<open>changeTrack\<close> hands to
  \<^verbatim>\<open>getMarksBetween\<close> (lines 153 to 170): the range found at the cursor, the whole
  document, or the selection.
\<close>

definition normalOp :: "TRACK_COMMAND_TYPE \<Rightarrow> TRACK_COMMAND_TYPE" where
  "normalOp opType =
     (if opType = TRACK_COMMAND_ACCEPT_ALL then TRACK_COMMAND_ACCEPT
      else if opType = TRACK_COMMAND_REJECT_ALL then TRACK_COMMAND_REJECT
      else opType)"

definition addressedRange :: "TRACK_COMMAND_TYPE \<Rightarrow> EditorState \<Rightarrow> (int \<times> int) option" where
  "addressedRange opType st =
     (if (opType = TRACK_COMMAND_ACCEPT \<or> opType = TRACK_COMMAND_REJECT) \<and>
         selection_from st = selection_to st
      then leftRange st
      else if opType = TRACK_COMMAND_ACCEPT_ALL \<or> opType = TRACK_COMMAND_REJECT_ALL
      then Some (0, contentSize (state_doc st))
      else Some (selection_from st, selection_to st))"

text \<open>
  The range from \<open>f\<close> to \<open>t\<close> begins in the first and ends in the last of the nodes
  \<open>vis\<close>, of which the first starts at \<open>p\<close>.
\<close>

definition coversNodes :: "int \<Rightarrow> int \<Rightarrow> int \<Rightarrow> doc list \<Rightarrow> bool" where
  "coversNodes f t p vis =
     (vis \<noteq> [] \<and> p \<le> f \<and> f < p + nodeSize (hd vis) \<and>
      p + int (length (concat (butlast vis))) < t \<and> t \<le> p + int (length (concat vis)))"

text \<open>
  In the node, the track marks that the operation keeps come before the others, and at
  most one other follows. A node gets one range for each of its marks, in the order of
  the marks; the range of a mark that is not kept deletes the node.
\<close>

definition stripsFirst :: "TRACK_COMMAND_TYPE \<Rightarrow> doc \<Rightarrow> bool" where
  "stripsFirst opType node =
     (length (dropWhile (keepsContent opType) (filter isTrackMark (nodeMarks node))) \<le> 1)"

text \<open>A document with \<open>xy\<close> under a deletion mark, \<open>ab\<close> under both marks and plain \<open>c\<close>.\<close>

definition mixedDraft :: EditorState where
  "mixedDraft =
     \<lparr>state_doc = markedText [deletionByAlice] ''xy'' @
                  markedText [insertionByAlice, deletionByAlice] ''ab'' @ plainText ''c'',
      selection_from = 0, selection_to = 0, storedMarks = None\<rparr>"

section \<open>The resolution engine on a document\<close>

lemma content_concat: "concat (content d) = d"
  by (induction d rule: content.induct) simp_all

lemma content_nonempty: "n \<in> set (content d) \<Longrightarrow> n \<noteq> []"
  by (induction d rule: content.induct) auto

lemma content_uniform: "n \<in> set (content d) \<Longrightarrow> ch \<in> set n \<Longrightarrow> snd ch = nodeMarks n"
proof (induction d rule: content.induct)
  case 1
  then show ?case by simp
next
  case (2 c d)
  then show ?case
    by (auto simp: nodeMarks_def dest: set_takeWhileD)
qed

lemma nodePositions_lower: "(q, n) \<in> set (nodePositions p ns) \<Longrightarrow> p \<le> q"
proof (induction ns arbitrary: p)
  case Nil
  then show ?case by simp
next
  case (Cons a ns)
  then show ?case by (fastforce simp: nodeSize_def)
qed

lemma nodesBetweenFrom_filter:
  assumes "\<forall>n\<in>set ns. n \<noteq> []" and "to \<le> p + int (length (concat ns))"
  shows "nodesBetweenFrom p from to ns =
         Inr (filter (\<lambda>(q, n). q < to \<and> from < q + nodeSize n) (nodePositions p ns))"
  using assms
proof (induction ns arbitrary: p)
  case Nil
  then show ?case by simp
next
  case (Cons a ns)
  show ?case
  proof (cases "p < to")
    case True
    have "to \<le> (p + nodeSize a) + int (length (concat ns))"
      using Cons.prems(2) by (simp add: nodeSize_def)
    with Cons.IH [of "p + nodeSize a"] Cons.prems(1)
    have "nodesBetweenFrom (p + nodeSize a) from to ns =
          Inr (filter (\<lambda>(q, n). q < to \<and> from < q + nodeSize n) (nodePositions (p + nodeSize a) ns))"
      by simp
    with True show ?thesis by simp
  next
    case False
    have "filter (\<lambda>(q, n). q < to \<and> from < q + nodeSize n) (nodePositions p (a # ns)) = []"
    proof -
      have "\<forall>x\<in>set (nodePositions p (a # ns)). \<not> (case x of (q, n) \<Rightarrow> q < to \<and> from < q + nodeSize n)"
        using False nodePositions_lower [of _ _ p "a # ns"] by fastforce
      then show ?thesis by (simp only: filter_False)
    qed
    with False show ?thesis by simp
  qed
qed

lemma nodesBetween_ok:
  assumes "to \<le> contentSize d"
  shows "nodesBetween from to d =
         Inr (filter (\<lambda>(q, n). q < to \<and> from < q + nodeSize n) (nodePositions 0 (content d)))"
  unfolding nodesBetween_def
  using assms by (intro nodesBetweenFrom_filter) (auto simp: content_concat contentSize_def content_nonempty)

lemma nodePositions_whole:
  assumes "\<forall>n\<in>set ns. n \<noteq> []" and "0 \<le> p"
  shows "filter (\<lambda>(q, n). q < p + int (length (concat ns)) \<and> 0 < q + nodeSize n) (nodePositions p ns)
         = nodePositions p ns"
  using assms
proof (induction ns arbitrary: p)
  case Nil
  then show ?case by simp
next
  case (Cons a ns)
  have a: "0 < nodeSize a" using Cons.prems(1) by (simp add: nodeSize_def)
  have "filter (\<lambda>(q, n). q < (p + nodeSize a) + int (length (concat ns)) \<and> 0 < q + nodeSize n)
          (nodePositions (p + nodeSize a) ns) = nodePositions (p + nodeSize a) ns"
    using Cons.prems a by (intro Cons.IH) auto
  note ih = this
  have len: "p + int (length (concat (a # ns))) = (p + nodeSize a) + int (length (concat ns))"
    by (simp add: nodeSize_def)
  show ?case
    unfolding len using ih a Cons.prems(2) by simp
qed

lemma nodesBetween_whole:
  "nodesBetween 0 (contentSize d) d = Inr (nodePositions 0 (content d))"
proof -
  have "nodesBetween 0 (contentSize d) d =
        Inr (filter (\<lambda>(q, n). q < contentSize d \<and> 0 < q + nodeSize n) (nodePositions 0 (content d)))"
    by (rule nodesBetween_ok) simp
  moreover have "filter (\<lambda>(q, n). q < 0 + int (length (concat (content d))) \<and> 0 < q + nodeSize n)
                   (nodePositions 0 (content d)) = nodePositions 0 (content d)"
    by (rule nodePositions_whole) (auto simp: content_nonempty)
  ultimately show ?thesis by (simp add: content_concat contentSize_def)
qed

lemma mapRange_middle:
  "mapRange f (int (length a)) (int (length a) + int (length x)) (a @ x @ b) = a @ map f x @ b"
  by (simp add: mapRange_def nat_add_distrib)

lemma take_drop_split:
  assumes "j \<le> k"
  shows "take j d @ take (k - j) (drop j d) @ drop k d = d"
proof -
  have "take j d @ take (k - j) (drop j d) = take (j + (k - j)) d"
    by (simp only: take_add)
  also have "j + (k - j) = k" using assms by simp
  finally have "(take j d @ take (k - j) (drop j d)) @ drop k d = take k d @ drop k d"
    by (rule arg_cong)
  then show ?thesis by (simp only: append_assoc append_take_drop_id)
qed

lemma map_fixed: "\<forall>ch\<in>set xs. f ch = ch \<Longrightarrow> map f xs = xs"
  by (induction xs) simp_all

lemma mapRange_fixed:
  assumes "\<forall>ch\<in>set a. f ch = ch" and "to \<le> int (length a)"
  shows "mapRange f from to (a @ b) = a @ b"
proof (cases "from < to")
  case False
  then show ?thesis by (simp add: mapRange_def)
next
  case True
  define j where "j = nat from"
  define k where "k = nat to"
  have jk: "j \<le> k" and ka: "k \<le> length a"
    using True assms(2) by (simp_all add: j_def k_def)
  have inner: "take (k - j) (drop j (a @ b)) = take (k - j) (drop j a)"
    using jk ka by simp
  have "\<forall>ch\<in>set (take (k - j) (drop j a)). f ch = ch"
    using assms(1) by (meson in_set_dropD in_set_takeD)
  then have "map f (take (k - j) (drop j (a @ b))) = take (k - j) (drop j (a @ b))"
    unfolding inner by (rule map_fixed)
  then have "mapRange f from to (a @ b) =
             take j (a @ b) @ take (k - j) (drop j (a @ b)) @ drop k (a @ b)"
    using True by (simp add: mapRange_def j_def k_def)
  also have "\<dots> = a @ b"
    using jk by (rule take_drop_split)
  finally show ?thesis .
qed

lemma nodesBetween_no_error:
  "to \<le> contentSize d \<Longrightarrow> \<exists>visited. nodesBetween from to d = Inr visited"
  by (simp add: nodesBetween_ok)

lemma removeMark_doc:
  assumes "to \<le> contentSize (tr_doc tr)"
  shows "\<exists>tr'. removeMark from to type tr = Inr tr' \<and>
               tr_doc tr' = mapRange (withoutMarkType type) from to (tr_doc tr) \<and>
               tr_meta tr' = tr_meta tr \<and>
               (tr_doc tr' = tr_doc tr \<longrightarrow> tr' = tr) \<and>
               (tr_steps tr = [] \<longrightarrow> tr_doc tr' \<noteq> tr_doc tr \<longrightarrow> tr_steps tr' \<noteq> []) \<and>
               (tr_steps tr \<noteq> [] \<longrightarrow> tr_steps tr' \<noteq> [])"
proof -
  obtain visited where "nodesBetween from to (tr_doc tr) = Inr visited"
    using nodesBetween_no_error [OF assms] by blast
  then show ?thesis
    by (simp add: removeMark_def Let_def)
qed

lemma removeMark_middle:
  assumes "tr_doc tr = a @ x @ b"
  shows "\<exists>tr'. removeMark (int (length a)) (int (length a) + int (length x)) type tr = Inr tr' \<and>
               tr_doc tr' = a @ map (withoutMarkType type) x @ b"
proof -
  have "int (length a) + int (length x) \<le> contentSize (tr_doc tr)"
    by (simp add: assms contentSize_def)
  from removeMark_doc [OF this, of "int (length a)" type] show ?thesis
    by (auto simp: assms mapRange_middle)
qed

lemma removeMark_fixed:
  assumes "tr_doc tr = a @ b" and "\<forall>ch\<in>set a. withoutMarkType type ch = ch" and "to \<le> int (length a)"
  shows "removeMark from to type tr = Inr tr"
proof -
  have "to \<le> contentSize (tr_doc tr)"
    using assms(1,3) by (simp add: contentSize_def)
  from removeMark_doc [OF this, of "from" type]
  obtain tr' where r: "removeMark from to type tr = Inr tr'"
      and d: "tr_doc tr' = mapRange (withoutMarkType type) from to (tr_doc tr)"
      and same: "tr_doc tr' = tr_doc tr \<longrightarrow> tr' = tr"
    by blast
  have "tr_doc tr' = tr_doc tr"
    using d mapRange_fixed [OF assms(2,3), of "from" b] by (simp add: assms(1))
  with same r show ?thesis by simp
qed

lemma deleteRange_middle:
  assumes "tr_doc tr = a @ x @ b"
  shows "\<exists>tr'. deleteRange (int (length a)) (int (length a) + int (length x)) tr = Inr tr' \<and>
               tr_doc tr' = a @ b"
  by (cases "x = []") (auto simp: deleteRange_def Let_def assms contentSize_def nat_add_distrib)

lemma forEachMarkRange_append:
  "forEachMarkRange opType (xs @ ys) s =
     (case forEachMarkRange opType xs s of Inl e \<Rightarrow> Inl e | Inr s' \<Rightarrow> forEachMarkRange opType ys s')"
  by (induction xs arbitrary: s) (auto split: sum.splits)

lemma withoutMarkType_id: "\<not> hasMarkType type ch \<Longrightarrow> withoutMarkType type ch = ch"
  by (cases ch) (simp add: withoutMarkType_def hasMarkType_def list_ex_iff filter_id_conv)

lemma hasMarkType_withoutMarkType:
  "hasMarkType t (withoutMarkType type ch) = (hasMarkType t ch \<and> t \<noteq> type)"
  by (auto simp: withoutMarkType_def hasMarkType_def list_ex_iff)

lemma trackFree_stripTrack: "trackFree (stripTrack ch)"
  by (simp add: trackFree_def stripTrack_def hasMarkType_withoutMarkType)

lemma stripTrack_id: "trackFree ch \<Longrightarrow> stripTrack ch = ch"
  by (simp add: trackFree_def stripTrack_def withoutMarkType_id)

lemma map_stripTrack:
  "map (withoutMarkType MARK_DELETION) (map (withoutMarkType MARK_INSERTION) x) = map stripTrack x"
  by (simp add: stripTrack_def)

lemma applyMarkRange_keep:
  assumes keep: "keepsContent opType (range_mark r)"
    and doc: "tr_doc tr = a @ x @ b"
    and fr: "range_from r - offset = int (length a)"
    and to: "range_to r - offset = int (length a) + int (length x)"
  shows "\<exists>tr'. applyMarkRange opType r (tr, offset) = Inr (tr', offset) \<and>
               tr_doc tr' = a @ map stripTrack x @ b"
proof -
  obtain tr1 where r1: "removeMark (int (length a)) (int (length a) + int (length x)) MARK_INSERTION tr = Inr tr1"
      and d1: "tr_doc tr1 = a @ map (withoutMarkType MARK_INSERTION) x @ b"
    using removeMark_middle [OF doc] by blast
  have "tr_doc tr1 = a @ map (withoutMarkType MARK_INSERTION) x @ b" by (rule d1)
  from removeMark_middle [OF this, of MARK_DELETION]
  obtain tr2 where r2: "removeMark (int (length a)) (int (length a) + int (length (map (withoutMarkType MARK_INSERTION) x))) MARK_DELETION tr1 = Inr tr2"
      and d2': "tr_doc tr2 = a @ map (withoutMarkType MARK_DELETION) (map (withoutMarkType MARK_INSERTION) x) @ b"
    by blast
  have d2: "tr_doc tr2 = a @ map stripTrack x @ b"
    using d2' by (simp only: map_stripTrack)
  have "applyMarkRange opType r (tr, offset) = Inr (tr2, offset)"
    using keep r1 r2 by (auto simp: applyMarkRange_def keepsContent_def fr to)
  with d2 show ?thesis by blast
qed

lemma applyMarkRange_delete:
  assumes del: "\<not> keepsContent opType (range_mark r)"
    and doc: "tr_doc tr = a @ x @ b"
    and fr: "range_from r - offset = int (length a)"
    and to: "range_to r - offset = int (length a) + int (length x)"
  shows "\<exists>tr'. applyMarkRange opType r (tr, offset) = Inr (tr', offset + (range_to r - range_from r)) \<and>
               tr_doc tr' = a @ b"
proof -
  obtain tr1 where r1: "deleteRange (int (length a)) (int (length a) + int (length x)) tr = Inr tr1"
      and d1: "tr_doc tr1 = a @ b"
    using deleteRange_middle [OF doc] by blast
  have "applyMarkRange opType r (tr, offset) = Inr (tr1, offset + (range_to r - range_from r))"
    using del r1 by (auto simp: applyMarkRange_def keepsContent_def fr to)
  with d1 show ?thesis by blast
qed

lemma applyMarkRange_keep_behind:
  assumes keep: "keepsContent opType (range_mark r)"
    and doc: "tr_doc tr = a @ b"
    and free: "\<forall>ch\<in>set a. trackFree ch"
    and to: "range_to r - offset \<le> int (length a)"
  shows "applyMarkRange opType r (tr, offset) = Inr (tr, offset)"
proof -
  have "\<forall>ch\<in>set a. withoutMarkType MARK_INSERTION ch = ch"
    and "\<forall>ch\<in>set a. withoutMarkType MARK_DELETION ch = ch"
    using free by (simp_all add: trackFree_def withoutMarkType_id)
  then have "removeMark (range_from r - offset) (range_to r - offset) MARK_INSERTION tr = Inr tr"
    and "removeMark (range_from r - offset) (range_to r - offset) MARK_DELETION tr = Inr tr"
    using doc to by (simp_all add: removeMark_fixed)
  then show ?thesis
    using keep by (simp add: applyMarkRange_def keepsContent_def)
qed

lemma stripTrack_twice: "stripTrack (stripTrack ch) = stripTrack ch"
  by (rule stripTrack_id) (rule trackFree_stripTrack)

lemma stripTrack_idem: "map stripTrack (map stripTrack x) = map stripTrack x"
  by (simp add: stripTrack_twice)

lemma marks_behind:
  assumes "\<forall>m\<in>set tms. keepsContent opType m"
    and "tr_doc tr = a @ b"
    and "\<forall>ch\<in>set a. trackFree ch"
    and "e - offset \<le> int (length a)"
  shows "forEachMarkRange opType (map (MarkRange q e) tms) (tr, offset) = Inr (tr, offset)"
  using assms(1)
proof (induction tms)
  case Nil
  then show ?case by simp
next
  case (Cons m tms)
  have "applyMarkRange opType (MarkRange q e m) (tr, offset) = Inr (tr, offset)"
    using Cons.prems assms(2-4) by (intro applyMarkRange_keep_behind) simp_all
  with Cons show ?case by simp
qed

lemma marks_loop:
  assumes one: "length (filter (\<lambda>m. \<not> keepsContent opType m) tms) \<le> 1"
    and doc: "tr_doc tr = a @ x @ b"
    and free: "\<forall>ch\<in>set a. trackFree ch"
  shows "\<exists>tr'. forEachMarkRange opType (map (MarkRange q (q + int (length x))) tms)
                 (tr, q - int (length a)) =
               Inr (tr', (q + int (length x)) - int (length (a @
                      (if list_ex (\<lambda>m. \<not> keepsContent opType m) tms then []
                       else if tms = [] then x else map stripTrack x)))) \<and>
               tr_doc tr' = a @ (if list_ex (\<lambda>m. \<not> keepsContent opType m) tms then []
                                 else if tms = [] then x else map stripTrack x) @ b"
  using one doc
proof (induction tms arbitrary: tr x)
  case Nil
  then show ?case by simp
next
  case (Cons m tms)
  let ?r = "MarkRange q (q + int (length x)) m"
  show ?case
  proof (cases "keepsContent opType m")
    case True
    obtain tr1 where a1: "applyMarkRange opType ?r (tr, q - int (length a)) = Inr (tr1, q - int (length a))"
        and d1: "tr_doc tr1 = a @ map stripTrack x @ b"
      using applyMarkRange_keep [of opType ?r tr a x b "q - int (length a)"] True Cons.prems(2)
      by auto
    have one': "length (filter (\<lambda>m. \<not> keepsContent opType m) tms) \<le> 1"
      using Cons.prems(1) True by simp
    from Cons.IH [OF one' d1]
    obtain tr' where f: "forEachMarkRange opType (map (MarkRange q (q + int (length (map stripTrack x)))) tms)
                 (tr1, q - int (length a)) =
               Inr (tr', (q + int (length (map stripTrack x))) - int (length (a @
                      (if list_ex (\<lambda>m. \<not> keepsContent opType m) tms then []
                       else if tms = [] then map stripTrack x else map stripTrack (map stripTrack x)))))"
        and d: "tr_doc tr' = a @ (if list_ex (\<lambda>m. \<not> keepsContent opType m) tms then []
                                 else if tms = [] then map stripTrack x else map stripTrack (map stripTrack x)) @ b"
      by blast
    have "forEachMarkRange opType (map (MarkRange q (q + int (length x))) (m # tms)) (tr, q - int (length a))
          = forEachMarkRange opType (map (MarkRange q (q + int (length x))) tms) (tr1, q - int (length a))"
      using a1 by simp
    with f d True show ?thesis
      by (auto simp: stripTrack_twice)
  next
    case False
    obtain tr1 where a1: "applyMarkRange opType ?r (tr, q - int (length a)) =
                           Inr (tr1, q - int (length a) + (range_to ?r - range_from ?r))"
        and d1: "tr_doc tr1 = a @ b"
      using applyMarkRange_delete [of opType ?r tr a x b "q - int (length a)"] False Cons.prems(2)
      by auto
    have rest: "\<forall>m\<in>set tms. keepsContent opType m"
    proof (rule ccontr)
      assume "\<not> (\<forall>m\<in>set tms. keepsContent opType m)"
      then have "filter (\<lambda>m. \<not> keepsContent opType m) tms \<noteq> []"
        by (simp add: filter_empty_conv)
      then have "0 < length (filter (\<lambda>m. \<not> keepsContent opType m) tms)" by simp
      with Cons.prems(1) False show False by simp
    qed
    have off: "q - int (length a) + (range_to ?r - range_from ?r) = q + int (length x) - int (length a)"
      by simp
    have "forEachMarkRange opType (map (MarkRange q (q + int (length x))) tms)
            (tr1, q + int (length x) - int (length a)) = Inr (tr1, q + int (length x) - int (length a))"
      using rest d1 free
      by (intro marks_behind [where a = a and b = b]) simp_all
    with a1 d1 False show ?thesis
      unfolding off by (simp add: list_ex_iff)
  qed
qed

lemma filter_track_nodeRanges:
  "filter isTrackRange (nodeRanges v) =
   map (MarkRange (fst v) (fst v + nodeSize (snd v))) (filter isTrackMark (nodeMarks (snd v)))"
proof -
  have "(isTrackRange \<circ> MarkRange (fst v) (fst v + nodeSize (snd v))) = isTrackMark"
    by (auto simp: isTrackRange_def isTrackMark_def fun_eq_iff)
  then show ?thesis
    by (simp add: nodeRanges_def filter_map)
qed

lemma keeps_or_discarded:
  assumes "opType = TRACK_COMMAND_ACCEPT \<or> opType = TRACK_COMMAND_REJECT" and "isTrackMark m"
  shows "(\<not> keepsContent opType m) = (mark_name m = discardedType opType)"
  using assms
  by (auto simp: keepsContent_def discardedType_def isTrackMark_def MARK_DELETION_def MARK_INSERTION_def)

lemma discarded_is_track:
  "mark_name m = discardedType opType \<Longrightarrow> isTrackMark m"
  by (auto simp: discardedType_def isTrackMark_def)

lemma resolvedDoc_append: "resolvedDoc t (x @ y) = resolvedDoc t x @ resolvedDoc t y"
  by (simp add: resolvedDoc_def)

lemma uniform_hasMarkType:
  assumes "\<forall>ch\<in>set n. snd ch = ms" and "ch \<in> set n"
  shows "hasMarkType t ch = list_ex (\<lambda>m. mark_name m = t) ms"
  using assms by (simp add: hasMarkType_def)

lemma resolvedDoc_node:
  assumes op: "opType = TRACK_COMMAND_ACCEPT \<or> opType = TRACK_COMMAND_REJECT"
    and uni: "\<forall>ch\<in>set n. snd ch = ms"
  shows "resolvedDoc (discardedType opType) n =
         (if list_ex (\<lambda>m. \<not> keepsContent opType m) (filter isTrackMark ms) then []
          else if filter isTrackMark ms = [] then n else map stripTrack n)"
proof -
  have ex: "list_ex (\<lambda>m. \<not> keepsContent opType m) (filter isTrackMark ms) =
            list_ex (\<lambda>m. mark_name m = discardedType opType) ms"
    using keeps_or_discarded [OF op] discarded_is_track [of _ opType]
    by (auto simp: list_ex_iff)
  show ?thesis
  proof (cases "list_ex (\<lambda>m. mark_name m = discardedType opType) ms")
    case True
    then have "\<forall>ch\<in>set n. hasMarkType (discardedType opType) ch"
      using uni by (simp add: hasMarkType_def)
    then have "filter (\<lambda>ch. \<not> hasMarkType (discardedType opType) ch) n = []"
      by (simp add: filter_empty_conv)
    with True ex show ?thesis by (simp add: resolvedDoc_def)
  next
    case False
    then have "\<forall>ch\<in>set n. \<not> hasMarkType (discardedType opType) ch"
      using uni by (simp add: hasMarkType_def)
    then have keep: "filter (\<lambda>ch. \<not> hasMarkType (discardedType opType) ch) n = n"
      by (simp add: filter_id_conv)
    show ?thesis
    proof (cases "filter isTrackMark ms = []")
      case True
      then have "\<forall>ch\<in>set n. trackFree ch"
        using uni
        by (auto simp: trackFree_def hasMarkType_def list_ex_iff filter_empty_conv isTrackMark_def)
      then have "map stripTrack n = n"
        by (intro map_fixed) (simp add: stripTrack_id)
      with True False ex keep show ?thesis by (simp add: resolvedDoc_def)
    next
      case nonempty: False
      with False ex keep show ?thesis by (simp add: resolvedDoc_def)
    qed
  qed
qed

lemma trackFree_resolvedDoc: "ch \<in> set (resolvedDoc t d) \<Longrightarrow> trackFree ch"
  by (auto simp: resolvedDoc_def trackFree_stripTrack)

lemma nodes_loop:
  assumes op: "opType = TRACK_COMMAND_ACCEPT \<or> opType = TRACK_COMMAND_REJECT"
    and nodes: "\<forall>n\<in>set ns. \<forall>ch\<in>set n. snd ch = nodeMarks n"
    and wf: "\<forall>n\<in>set ns. length (filter (\<lambda>m. mark_name m = discardedType opType) (nodeMarks n)) \<le> 1"
    and doc: "tr_doc tr = a @ concat ns"
    and free: "\<forall>ch\<in>set a. trackFree ch"
  shows "\<exists>tr' offset'.
           forEachMarkRange opType (filter isTrackRange (concat (map nodeRanges (nodePositions p ns))))
             (tr, p - int (length a)) = Inr (tr', offset') \<and>
           tr_doc tr' = a @ resolvedDoc (discardedType opType) (concat ns)"
  using nodes wf doc free
proof (induction ns arbitrary: p a tr)
  case Nil
  then show ?case by (simp add: resolvedDoc_def)
next
  case (Cons n ns)
  let ?tms = "filter isTrackMark (nodeMarks n)"
  let ?y = "if list_ex (\<lambda>m. \<not> keepsContent opType m) ?tms then []
            else if ?tms = [] then n else map stripTrack n"
  have uni: "\<forall>ch\<in>set n. snd ch = nodeMarks n" using Cons.prems(1) by simp
  have y: "?y = resolvedDoc (discardedType opType) n"
    using resolvedDoc_node [OF op uni] by simp
  have "filter (\<lambda>m. \<not> keepsContent opType m) ?tms =
        filter (\<lambda>m. mark_name m = discardedType opType) (nodeMarks n)"
    using keeps_or_discarded [OF op] discarded_is_track [of _ opType]
    by (auto simp: filter_filter intro!: filter_cong)
  then have one: "length (filter (\<lambda>m. \<not> keepsContent opType m) ?tms) \<le> 1"
    using Cons.prems(2) by simp
  have doc1: "tr_doc tr = a @ n @ concat ns" using Cons.prems(3) by simp
  from marks_loop [OF one doc1 Cons.prems(4), of p]
  obtain tr1 where f1: "forEachMarkRange opType (map (MarkRange p (p + int (length n))) ?tms)
                 (tr, p - int (length a)) = Inr (tr1, (p + int (length n)) - int (length (a @ ?y)))"
      and d1: "tr_doc tr1 = a @ ?y @ concat ns"
    by blast
  have free1: "\<forall>ch\<in>set (a @ ?y). trackFree ch"
    unfolding y using Cons.prems(4) trackFree_resolvedDoc by auto
  have d1': "tr_doc tr1 = (a @ ?y) @ concat ns" using d1 by simp
  have n1: "\<forall>n\<in>set ns. \<forall>ch\<in>set n. snd ch = nodeMarks n"
    and wf1: "\<forall>n\<in>set ns. length (filter (\<lambda>m. mark_name m = discardedType opType) (nodeMarks n)) \<le> 1"
    using Cons.prems(1,2) by simp_all
  from Cons.IH [OF n1 wf1 d1' free1, of "p + int (length n)"]
  obtain tr' offset' where f2: "forEachMarkRange opType
        (filter isTrackRange (concat (map nodeRanges (nodePositions (p + int (length n)) ns))))
        (tr1, (p + int (length n)) - int (length (a @ ?y))) = Inr (tr', offset')"
      and d2: "tr_doc tr' = (a @ ?y) @ resolvedDoc (discardedType opType) (concat ns)"
    by blast
  have split: "filter isTrackRange (concat (map nodeRanges (nodePositions p (n # ns)))) =
        map (MarkRange p (p + int (length n))) ?tms @
        filter isTrackRange (concat (map nodeRanges (nodePositions (p + int (length n)) ns)))"
    by (simp add: filter_track_nodeRanges nodeSize_def)
  have "forEachMarkRange opType (filter isTrackRange (concat (map nodeRanges (nodePositions p (n # ns)))))
          (tr, p - int (length a)) = Inr (tr', offset')"
    unfolding split forEachMarkRange_append using f1 f2 by simp
  moreover have "tr_doc tr' = a @ resolvedDoc (discardedType opType) (concat (n # ns))"
    using d2 y by (simp add: resolvedDoc_append)
  ultimately show ?case by blast
qed

lemma getMarksBetween_nodes:
  assumes "from \<noteq> to" and "to \<le> contentSize d"
  shows "getMarksBetween from to d =
         Inr (concat (map nodeRanges
                (filter (\<lambda>(q, n). q < to \<and> from < q + nodeSize n) (nodePositions 0 (content d)))))"
proof -
  have "(\<lambda>(pos, node). map (MarkRange pos (pos + nodeSize node)) (nodeMarks node)) = nodeRanges"
    by (auto simp: nodeRanges_def fun_eq_iff)
  then show ?thesis
    using assms by (simp add: getMarksBetween_def nodesBetween_ok)
qed

lemma getMarksBetween_whole:
  assumes "d \<noteq> []"
  shows "getMarksBetween 0 (contentSize d) d = Inr (concat (map nodeRanges (nodePositions 0 (content d))))"
proof -
  have "(\<lambda>(pos, node). map (MarkRange pos (pos + nodeSize node)) (nodeMarks node)) = nodeRanges"
    by (auto simp: nodeRanges_def fun_eq_iff)
  moreover have "0 \<noteq> contentSize d" using assms by (simp add: contentSize_def)
  ultimately show ?thesis
    by (simp add: getMarksBetween_def nodesBetween_whole)
qed

lemma getMarksBetween_empty_doc: "getMarksBetween 0 (contentSize []) [] = Inr []"
  by (simp add: getMarksBetween_def contentSize_def resolvedMarks_def charMarks_def)

lemma content_nodeMarks_in_doc:
  assumes "n \<in> set (content d)"
  shows "\<exists>ch\<in>set d. nodeMarks n = snd ch"
proof -
  from assms have "n \<noteq> []" by (rule content_nonempty)
  then obtain ch rest where n: "n = ch # rest" by (cases n) auto
  have "set n \<subseteq> set (concat (content d))" using assms by auto
  then have "ch \<in> set d" using n by (simp add: content_concat)
  then show ?thesis using n by (auto simp: nodeMarks_def)
qed

lemma whole_scope_loop:
  assumes op: "opType = TRACK_COMMAND_ACCEPT \<or> opType = TRACK_COMMAND_REJECT"
    and wf: "\<forall>ch\<in>set d. length (filter (\<lambda>m. mark_name m = discardedType opType) (snd ch)) \<le> 1"
    and doc: "tr_doc tr = d"
  shows "\<exists>tr' offset'.
           forEachMarkRange opType (filter isTrackRange (concat (map nodeRanges (nodePositions 0 (content d)))))
             (tr, 0) = Inr (tr', offset') \<and>
           tr_doc tr' = resolvedDoc (discardedType opType) d"
proof -
  have nodes: "\<forall>n\<in>set (content d). \<forall>ch\<in>set n. snd ch = nodeMarks n"
    using content_uniform by blast
  have wfn: "\<forall>n\<in>set (content d). length (filter (\<lambda>m. mark_name m = discardedType opType) (nodeMarks n)) \<le> 1"
    using wf content_nodeMarks_in_doc by metis
  have doc': "tr_doc tr = [] @ concat (content d)" by (simp add: doc content_concat)
  have free: "\<forall>ch\<in>set ([] :: doc). trackFree ch" by simp
  from nodes_loop [OF op nodes wfn doc' free, of 0]
  show ?thesis by (simp add: content_concat)
qed

lemma no_track_ranges_resolved:
  assumes op: "opType = TRACK_COMMAND_ACCEPT \<or> opType = TRACK_COMMAND_REJECT"
    and none: "filter isTrackRange (concat (map nodeRanges (nodePositions 0 (content d)))) = []"
  shows "resolvedDoc (discardedType opType) d = d"
proof -
  have nodes: "\<forall>n\<in>set (content d). \<forall>ch\<in>set n. snd ch = nodeMarks n"
    using content_uniform by blast
  have free: "\<forall>ch\<in>set ([] :: doc). trackFree ch" by simp
  have "\<forall>v\<in>set (nodePositions 0 (content d)). filter isTrackMark (nodeMarks (snd v)) = []"
    using none by (auto simp: filter_concat filter_track_nodeRanges)
  moreover have "\<And>p ns. snd ` set (nodePositions p ns) = set ns"
  proof -
    fix p ns show "snd ` set (nodePositions p ns) = set ns"
      by (induction ns arbitrary: p) auto
  qed
  ultimately have nomark: "\<forall>n\<in>set (content d). filter isTrackMark (nodeMarks n) = []"
    by (metis imageE)
  have "\<forall>ch\<in>set d. trackFree ch"
  proof
    fix ch assume "ch \<in> set d"
    then have "ch \<in> set (concat (content d))" by (simp add: content_concat)
    then obtain n where n: "n \<in> set (content d)" "ch \<in> set n" by auto
    then have "snd ch = nodeMarks n" using nodes by blast
    moreover have "filter isTrackMark (nodeMarks n) = []" using nomark n by blast
    ultimately show "trackFree ch"
      by (auto simp: trackFree_def hasMarkType_def list_ex_iff filter_empty_conv isTrackMark_def)
  qed
  then have free: "\<forall>ch\<in>set d. \<not> hasMarkType (discardedType opType) ch" and same: "map stripTrack d = d"
    by (auto simp: trackFree_def discardedType_def intro!: map_fixed stripTrack_id)
  from free have "filter (\<lambda>ch. \<not> hasMarkType (discardedType opType) ch) d = d"
    by (simp add: filter_id_conv)
  with same show ?thesis
    by (simp add: resolvedDoc_def)
qed

lemma changeTrack_whole:
  assumes all: "opType0 = TRACK_COMMAND_ACCEPT_ALL \<and> opType = TRACK_COMMAND_ACCEPT \<or>
                opType0 = TRACK_COMMAND_REJECT_ALL \<and> opType = TRACK_COMMAND_REJECT"
    and wf: "\<forall>ch\<in>set (state_doc st). length (filter (\<lambda>m. mark_name m = discardedType opType) (snd ch)) \<le> 1"
    and doc: "tr_doc tr = state_doc st"
  shows "\<exists>changed tr'. changeTrack opType0 st tr = Inr (changed, tr') \<and>
           tr_doc tr' = resolvedDoc (discardedType opType) (state_doc st)"
proof -
  let ?d = "state_doc st"
  have op: "opType = TRACK_COMMAND_ACCEPT \<or> opType = TRACK_COMMAND_REJECT" using all by blast
  show ?thesis
  proof (cases "?d = []")
    case True
    then have "scopeMarkRanges opType0 st = Inr ([], opType)"
      using all getMarksBetween_empty_doc by (auto simp: scopeMarkRanges_def Let_def)
    then have "changeTrack opType0 st tr = Inr (False, tr)"
      by (simp add: changeTrack_def)
    moreover have "tr_doc tr = resolvedDoc (discardedType opType) ?d"
      using True doc by (simp add: resolvedDoc_def)
    ultimately show ?thesis by blast
  next
    case False
    let ?rs = "concat (map nodeRanges (nodePositions 0 (content ?d)))"
    have scope: "scopeMarkRanges opType0 st = Inr (?rs, opType)"
      using all getMarksBetween_whole [OF False] by (auto simp: scopeMarkRanges_def Let_def)
    show ?thesis
    proof (cases "filter isTrackRange ?rs = []")
      case True
      then have "changeTrack opType0 st tr = Inr (False, tr)"
        using scope by (simp add: changeTrack_def)
      moreover have "tr_doc tr = resolvedDoc (discardedType opType) ?d"
        using no_track_ranges_resolved [OF op True] doc by simp
      ultimately show ?thesis by blast
    next
      case nonempty: False
      from whole_scope_loop [OF op wf doc]
      obtain tr' offset' where f: "forEachMarkRange opType (filter isTrackRange ?rs) (tr, 0) = Inr (tr', offset')"
          and d: "tr_doc tr' = resolvedDoc (discardedType opType) ?d"
        by blast
      show ?thesis
        using scope nonempty f d by (auto simp: changeTrack_def setMeta_def)
    qed
  qed
qed

lemma snd_nodePositions: "snd ` set (nodePositions p ns) = set ns"
  by (induction ns arbitrary: p) auto

lemma track_ranges_empty_iff:
  "(filter isTrackRange (concat (map nodeRanges (nodePositions p (content d)))) = []) =
   (\<forall>ch\<in>set d. trackFree ch)"
proof -
  have "(filter isTrackRange (concat (map nodeRanges (nodePositions p (content d)))) = []) =
        (\<forall>v\<in>set (nodePositions p (content d)). filter isTrackMark (nodeMarks (snd v)) = [])"
    by (auto simp: filter_concat filter_track_nodeRanges)
  also have "\<dots> = (\<forall>n\<in>set (content d). filter isTrackMark (nodeMarks n) = [])"
    using snd_nodePositions [of p "content d"] by (metis imageE image_eqI)
  also have "\<dots> = (\<forall>ch\<in>set d. trackFree ch)"
  proof
    assume nomark: "\<forall>n\<in>set (content d). filter isTrackMark (nodeMarks n) = []"
    show "\<forall>ch\<in>set d. trackFree ch"
    proof
      fix ch assume "ch \<in> set d"
      then have "ch \<in> set (concat (content d))" by (simp add: content_concat)
      then obtain n where n: "n \<in> set (content d)" "ch \<in> set n" by auto
      then have "snd ch = nodeMarks n" using content_uniform by blast
      moreover have "filter isTrackMark (nodeMarks n) = []" using nomark n by blast
      ultimately show "trackFree ch"
        by (auto simp: trackFree_def hasMarkType_def list_ex_iff filter_empty_conv isTrackMark_def)
    qed
  next
    assume free: "\<forall>ch\<in>set d. trackFree ch"
    show "\<forall>n\<in>set (content d). filter isTrackMark (nodeMarks n) = []"
    proof
      fix n assume "n \<in> set (content d)"
      then obtain ch where "ch \<in> set d" "nodeMarks n = snd ch"
        using content_nodeMarks_in_doc by blast
      with free show "filter isTrackMark (nodeMarks n) = []"
        by (auto simp: trackFree_def hasMarkType_def list_ex_iff filter_empty_conv isTrackMark_def)
    qed
  qed
  finally show ?thesis .
qed


lemma discardedType_simps:
  "discardedType TRACK_COMMAND_ACCEPT = MARK_DELETION"
  "discardedType TRACK_COMMAND_REJECT = MARK_INSERTION"
  by (simp_all add: discardedType_def)

lemma keepsContent_simps:
  "mark_name m = MARK_INSERTION \<Longrightarrow> keepsContent TRACK_COMMAND_ACCEPT m"
  "mark_name m = MARK_DELETION \<Longrightarrow> keepsContent TRACK_COMMAND_REJECT m"
  "mark_name m = MARK_DELETION \<Longrightarrow> \<not> keepsContent TRACK_COMMAND_ACCEPT m"
  "mark_name m = MARK_INSERTION \<Longrightarrow> \<not> keepsContent TRACK_COMMAND_REJECT m"
  by (simp_all add: keepsContent_def MARK_INSERTION_def MARK_DELETION_def)

text \<open>
  The four-way policy on one range and on a whole document. On a transaction whose
  document has the range's content \<open>x\<close> at the shifted position (between \<open>a\<close> and
  \<open>b\<close>): accept with an insertion mark and reject with a deletion mark keep \<open>x\<close> and
  strip its track marks, leaving the offset; accept with a deletion mark and reject with
  an insertion mark delete \<open>x\<close> and add its length to the offset. On a whole document
  in which no character carries two marks of the same track type, accept-all returns the
  document without the content under a deletion mark and reject-all the document without
  the content under an insertion mark, both with the track marks stripped from what
  stays.
\<close>

lemma changeTrack_four_way_policy:
  assumes wf: "\<forall>ch\<in>set (state_doc st).
                 length (filter (\<lambda>m. mark_name m = MARK_INSERTION) (snd ch)) \<le> 1 \<and>
                 length (filter (\<lambda>m. mark_name m = MARK_DELETION) (snd ch)) \<le> 1"
    and doc: "tr_doc tr = a @ x @ b"
    and fr: "range_from r - offset = int (length a)"
    and to: "range_to r - offset = int (length a) + int (length x)"
  shows "(mark_name (range_mark r) = MARK_INSERTION \<longrightarrow>
            (\<exists>tr'. applyMarkRange TRACK_COMMAND_ACCEPT r (tr, offset) = Inr (tr', offset) \<and>
                   tr_doc tr' = a @ map stripTrack x @ b) \<and>
            (\<exists>tr'. applyMarkRange TRACK_COMMAND_REJECT r (tr, offset) =
                     Inr (tr', offset + (range_to r - range_from r)) \<and>
                   tr_doc tr' = a @ b)) \<and>
         (mark_name (range_mark r) = MARK_DELETION \<longrightarrow>
            (\<exists>tr'. applyMarkRange TRACK_COMMAND_ACCEPT r (tr, offset) =
                     Inr (tr', offset + (range_to r - range_from r)) \<and>
                   tr_doc tr' = a @ b) \<and>
            (\<exists>tr'. applyMarkRange TRACK_COMMAND_REJECT r (tr, offset) = Inr (tr', offset) \<and>
                   tr_doc tr' = a @ map stripTrack x @ b)) \<and>
         (\<exists>changed tr'. changeTrack TRACK_COMMAND_ACCEPT_ALL st (state_tr st) = Inr (changed, tr') \<and>
            tr_doc tr' = map stripTrack (filter (\<lambda>ch. \<not> hasMarkType MARK_DELETION ch) (state_doc st))) \<and>
         (\<exists>changed tr'. changeTrack TRACK_COMMAND_REJECT_ALL st (state_tr st) = Inr (changed, tr') \<and>
            tr_doc tr' = map stripTrack (filter (\<lambda>ch. \<not> hasMarkType MARK_INSERTION ch) (state_doc st)))"
proof (intro conjI impI)
  assume ins: "mark_name (range_mark r) = MARK_INSERTION"
  show "\<exists>tr'. applyMarkRange TRACK_COMMAND_ACCEPT r (tr, offset) = Inr (tr', offset) \<and>
              tr_doc tr' = a @ map stripTrack x @ b"
    using keepsContent_simps(1) [OF ins] doc fr to by (rule applyMarkRange_keep)
  show "\<exists>tr'. applyMarkRange TRACK_COMMAND_REJECT r (tr, offset) =
                Inr (tr', offset + (range_to r - range_from r)) \<and> tr_doc tr' = a @ b"
    using keepsContent_simps(4) [OF ins] doc fr to by (rule applyMarkRange_delete)
next
  assume del: "mark_name (range_mark r) = MARK_DELETION"
  show "\<exists>tr'. applyMarkRange TRACK_COMMAND_ACCEPT r (tr, offset) =
                Inr (tr', offset + (range_to r - range_from r)) \<and> tr_doc tr' = a @ b"
    using keepsContent_simps(3) [OF del] doc fr to by (rule applyMarkRange_delete)
  show "\<exists>tr'. applyMarkRange TRACK_COMMAND_REJECT r (tr, offset) = Inr (tr', offset) \<and>
              tr_doc tr' = a @ map stripTrack x @ b"
    using keepsContent_simps(2) [OF del] doc fr to by (rule applyMarkRange_keep)
next
  have wfa: "\<forall>ch\<in>set (state_doc st).
               length (filter (\<lambda>m. mark_name m = discardedType TRACK_COMMAND_ACCEPT) (snd ch)) \<le> 1"
    using wf by (simp add: discardedType_simps)
  have "tr_doc (state_tr st) = state_doc st" by (simp add: state_tr_def)
  from changeTrack_whole [OF _ wfa this, of TRACK_COMMAND_ACCEPT_ALL]
  show "\<exists>changed tr'. changeTrack TRACK_COMMAND_ACCEPT_ALL st (state_tr st) = Inr (changed, tr') \<and>
          tr_doc tr' = map stripTrack (filter (\<lambda>ch. \<not> hasMarkType MARK_DELETION ch) (state_doc st))"
    by (simp add: discardedType_simps resolvedDoc_def)
next
  have wfr: "\<forall>ch\<in>set (state_doc st).
               length (filter (\<lambda>m. mark_name m = discardedType TRACK_COMMAND_REJECT) (snd ch)) \<le> 1"
    using wf by (simp add: discardedType_simps)
  have "tr_doc (state_tr st) = state_doc st" by (simp add: state_tr_def)
  from changeTrack_whole [OF _ wfr this, of TRACK_COMMAND_REJECT_ALL]
  show "\<exists>changed tr'. changeTrack TRACK_COMMAND_REJECT_ALL st (state_tr st) = Inr (changed, tr') \<and>
          tr_doc tr' = map stripTrack (filter (\<lambda>ch. \<not> hasMarkType MARK_INSERTION ch) (state_doc st))"
    by (simp add: discardedType_simps resolvedDoc_def)
qed

lemma helloWorld_wf:
  "\<forall>ch\<in>set (state_doc helloWorldDeleted).
     length (filter (\<lambda>m. mark_name m = MARK_INSERTION) (snd ch)) \<le> 1 \<and>
     length (filter (\<lambda>m. mark_name m = MARK_DELETION) (snd ch)) \<le> 1"
  by (simp add: helloWorldDeleted_def plainText_def markedText_def deletionByAlice_def
        MARK_INSERTION_def MARK_DELETION_def)

lemma helloWorld_accepted:
  "map stripTrack (filter (\<lambda>ch. \<not> hasMarkType MARK_DELETION ch) (state_doc helloWorldDeleted)) =
   plainText ''hello ''"
  by (simp add: helloWorldDeleted_def plainText_def markedText_def deletionByAlice_def
        hasMarkType_def stripTrack_def withoutMarkType_def MARK_INSERTION_def MARK_DELETION_def)

lemma helloWorld_rejected:
  "map stripTrack (filter (\<lambda>ch. \<not> hasMarkType MARK_INSERTION ch) (state_doc helloWorldDeleted)) =
   plainText ''hello world''"
  by (simp add: helloWorldDeleted_def plainText_def markedText_def deletionByAlice_def
        hasMarkType_def stripTrack_def withoutMarkType_def MARK_INSERTION_def MARK_DELETION_def)

text \<open>
  The scenario of the specification: on \<open>hello world\<close> with \<open>world\<close> under a deletion
  mark, accept-all yields \<open>hello \<close> and reject-all yields \<open>hello world\<close> without marks.
\<close>

lemma changeTrack_hello_world:
  "(\<exists>changed tr'. changeTrack TRACK_COMMAND_ACCEPT_ALL helloWorldDeleted (state_tr helloWorldDeleted) =
       Inr (changed, tr') \<and> tr_doc tr' = plainText ''hello '') \<and>
   (\<exists>changed tr'. changeTrack TRACK_COMMAND_REJECT_ALL helloWorldDeleted (state_tr helloWorldDeleted) =
       Inr (changed, tr') \<and> tr_doc tr' = plainText ''hello world'') \<and>
   (\<exists>tr'. applyMarkRange TRACK_COMMAND_ACCEPT (MarkRange 6 11 deletionByAlice)
            (state_tr helloWorldDeleted, 0) = Inr (tr', 5) \<and> tr_doc tr' = plainText ''hello '') \<and>
   (\<exists>tr'. applyMarkRange TRACK_COMMAND_REJECT (MarkRange 6 11 deletionByAlice)
            (state_tr helloWorldDeleted, 0) = Inr (tr', 0) \<and> tr_doc tr' = plainText ''hello world'')"
proof -
  have doc: "tr_doc (state_tr helloWorldDeleted) =
             plainText ''hello '' @ markedText [deletionByAlice] ''world'' @ []"
    by (simp add: state_tr_def helloWorldDeleted_def)
  have fr: "range_from (MarkRange 6 11 deletionByAlice) - 0 = int (length (plainText ''hello ''))"
    and to: "range_to (MarkRange 6 11 deletionByAlice) - 0 =
             int (length (plainText ''hello '')) + int (length (markedText [deletionByAlice] ''world''))"
    by (simp_all add: plainText_def markedText_def)
  have del: "mark_name (range_mark (MarkRange 6 11 deletionByAlice)) = MARK_DELETION"
    by (simp add: deletionByAlice_def)
  have strip: "map stripTrack (markedText [deletionByAlice] ''world'') = plainText ''world''"
    by (simp add: plainText_def markedText_def deletionByAlice_def
          stripTrack_def withoutMarkType_def MARK_INSERTION_def MARK_DELETION_def)
  have cat: "plainText ''hello '' @ plainText ''world'' @ [] = plainText ''hello world''"
    by (simp add: plainText_def)
  from changeTrack_four_way_policy [OF helloWorld_wf doc fr to] del
  show ?thesis
    unfolding helloWorld_accepted helloWorld_rejected strip cat by simp
qed

text \<open>
  C1: the claim is that every gathered mark range gets the four-way policy: accept keeps
  what is under an insertion mark and deletes what is under a deletion mark, reject does
  the opposite, and what is kept loses its track marks. That is what the loop does with a
  range at its shifted position, what accept-all and reject-all do to a whole document
  (\<open>changeTrack_four_way_policy\<close>, \<open>changeTrack_hello_world\<close>), and what every call does
  to its scope where the marks that keep come first in each node (\<open>changeTrack_scope\<close>).
  But a node that carries both track marks is gathered twice, once for each mark, with
  the same range.
  When the entry that deletes comes first, the offset already counts the node when the
  entry that strips is processed, and the two \<^verbatim>\<open>removeMark\<close> calls go to the content in
  front of the node. Here \<open>xy\<close> is under a deletion mark and the selected \<open>ab\<close> under an
  insertion and a deletion mark: reject gathers \<open>(2, 4)\<close> twice, deletes \<open>ab\<close> for its
  insertion mark, and for its deletion mark strips \<open>(0, 2)\<close>. The range under the
  deletion mark was not kept, and \<open>xy\<close>, outside the selection, has lost its deletion
  mark. Where the host ranks the deletion mark first, accept does the same to an insertion
  mark on \<open>xy\<close>.
\<close>

theorem reject_strips_outside_selection:
  "scopeMarkRanges TRACK_COMMAND_REJECT selectedDoublyMarked =
     Inr ([MarkRange 2 4 insertionByAlice, MarkRange 2 4 deletionByAlice], TRACK_COMMAND_REJECT) \<and>
   changeTrack TRACK_COMMAND_REJECT selectedDoublyMarked (state_tr selectedDoublyMarked) =
     Inr (True,
       \<lparr>tr_doc = plainText ''xy'',
        tr_steps = [(ReplaceStep 2 4 [], state_doc selectedDoublyMarked),
                    (RemoveMarkStep 0 2 MARK_DELETION, markedText [deletionByAlice] ''xy'')],
        tr_meta = [(''trackManualChanged'', MetaBool True)],
        tr_selection = None\<rparr>) \<and>
   scopeMarkRanges TRACK_COMMAND_ACCEPT selectedDeletionFirst =
     Inr ([MarkRange 2 4 deletionByAlice, MarkRange 2 4 insertionByAlice], TRACK_COMMAND_ACCEPT) \<and>
   changeTrack TRACK_COMMAND_ACCEPT selectedDeletionFirst (state_tr selectedDeletionFirst) =
     Inr (True,
       \<lparr>tr_doc = plainText ''xy'',
        tr_steps = [(ReplaceStep 2 4 [], state_doc selectedDeletionFirst),
                    (RemoveMarkStep 0 2 MARK_INSERTION, markedText [insertionByAlice] ''xy'')],
        tr_meta = [(''trackManualChanged'', MetaBool True)],
        tr_selection = None\<rparr>)"
  by code_simp

section \<open>One range, the no-op case and the running offset\<close>

lemma textOf_stripTrack: "textOf (map stripTrack x) = textOf x"
  by (simp add: textOf_def stripTrack_def withoutMarkType_def comp_def)

lemma getMarkRange_none:
  assumes "\<forall>ch\<in>set d. \<not> hasMarkType type ch"
  shows "getMarkRange pos type d = None"
proof -
  have "\<And>i. (case charMarks d i of None \<Rightarrow> False
                | Some ms \<Rightarrow> list_ex (\<lambda>m. mark_name m = type) ms) = False"
    using assms
    by (auto simp: charMarks_def hasMarkType_def contentSize_def split: option.splits)
  then show ?thesis
    by (simp add: getMarkRange_def Let_def split: option.splits)
qed

lemma track_ranges_filtered_nodes:
  assumes "\<forall>ch\<in>set d. trackFree ch"
  shows "filter isTrackRange (concat (map nodeRanges (filter P (nodePositions p (content d))))) = []"
proof -
  have "filter isTrackRange (concat (map nodeRanges (nodePositions p (content d)))) = []"
    using assms by (simp only: track_ranges_empty_iff)
  then show ?thesis
    by (auto simp: filter_concat filter_empty_conv)
qed

lemma untracked_scope:
  assumes free: "\<forall>ch\<in>set (state_doc st). trackFree ch"
    and sel: "selection_to st \<le> contentSize (state_doc st)"
  shows "\<exists>gathered opType'. scopeMarkRanges opType st = Inr (gathered, opType') \<and>
           filter isTrackRange gathered = []"
proof -
  let ?d = "state_doc st"
  have none: "leftRange st = None"
    using free by (simp add: leftRange_def getMarkRange_none trackFree_def)
  have whole: "\<exists>rs. getMarksBetween 0 (contentSize ?d) ?d = Inr rs \<and> filter isTrackRange rs = []"
  proof (cases "?d = []")
    case True
    then show ?thesis using getMarksBetween_empty_doc by simp
  next
    case False
    from getMarksBetween_whole [OF False] free show ?thesis
      by (simp add: track_ranges_empty_iff)
  qed
  have part: "selection_from st \<noteq> selection_to st \<Longrightarrow>
              \<exists>rs. getMarksBetween (selection_from st) (selection_to st) ?d = Inr rs \<and>
                   filter isTrackRange rs = []"
    using getMarksBetween_nodes [OF _ sel] track_ranges_filtered_nodes [OF free] by simp
  show ?thesis
  proof (cases opType)
    case TRACK_COMMAND_ACCEPT
    then show ?thesis using none part by (auto simp: scopeMarkRanges_def Let_def)
  next
    case TRACK_COMMAND_ACCEPT_ALL
    then show ?thesis using whole by (auto simp: scopeMarkRanges_def Let_def)
  next
    case TRACK_COMMAND_REJECT
    then show ?thesis using none part by (auto simp: scopeMarkRanges_def Let_def)
  next
    case TRACK_COMMAND_REJECT_ALL
    then show ?thesis using whole by (auto simp: scopeMarkRanges_def Let_def)
  qed
qed

text \<open>
  C5: when the gathered mark ranges hold no range of an insertion or deletion mark,
  \<^verbatim>\<open>changeTrack\<close> returns \<open>false\<close> and the transaction it was given, with no step
  and no metadata added, and raises nothing; this holds for each of the four
  operations. In particular it is so for every document without track marks (the
  selection lying inside the document).
\<close>

theorem changeTrack_no_qualifying_run:
  "(scopeMarkRanges opType st = Inr (gathered, opType') \<and> filter isTrackRange gathered = [] \<longrightarrow>
      changeTrack opType st tr = Inr (False, tr)) \<and>
   ((\<forall>ch\<in>set (state_doc st). trackFree ch) \<and> selection_to st \<le> contentSize (state_doc st) \<longrightarrow>
      changeTrack opType st tr = Inr (False, tr))"
proof (intro conjI impI)
  assume "scopeMarkRanges opType st = Inr (gathered, opType') \<and> filter isTrackRange gathered = []"
  then show "changeTrack opType st tr = Inr (False, tr)"
    by (simp add: changeTrack_def)
next
  assume "(\<forall>ch\<in>set (state_doc st). trackFree ch) \<and> selection_to st \<le> contentSize (state_doc st)"
  then obtain gathered opType' where "scopeMarkRanges opType st = Inr (gathered, opType')"
      and "filter isTrackRange gathered = []"
    using untracked_scope by blast
  then show "changeTrack opType st tr = Inr (False, tr)"
    by (simp add: changeTrack_def)
qed

theorem changeTrack_plain_document_noop:
  "changeTrack TRACK_COMMAND_ACCEPT_ALL plainHelloWorld (state_tr plainHelloWorld) =
     Inr (False, state_tr plainHelloWorld) \<and>
   changeTrack TRACK_COMMAND_REJECT plainHelloWorld (state_tr plainHelloWorld) =
     Inr (False, state_tr plainHelloWorld)"
proof -
  have free: "(\<forall>ch\<in>set (state_doc plainHelloWorld). trackFree ch) \<and>
              selection_to plainHelloWorld \<le> contentSize (state_doc plainHelloWorld)"
    by (simp add: plainHelloWorld_def plainText_def trackFree_def hasMarkType_def contentSize_def)
  have scope: "scopeMarkRanges TRACK_COMMAND_REJECT plainHelloWorld = Inr ([], TRACK_COMMAND_REJECT) \<and>
               filter isTrackRange [] = []"
    by code_simp
  from changeTrack_no_qualifying_run [of TRACK_COMMAND_ACCEPT_ALL plainHelloWorld "[]"
      TRACK_COMMAND_ACCEPT "state_tr plainHelloWorld"] free
    changeTrack_no_qualifying_run [of TRACK_COMMAND_REJECT plainHelloWorld "[]"
      TRACK_COMMAND_REJECT "state_tr plainHelloWorld"] scope
  show ?thesis by blast
qed






lemma getMarkRange_cases:
  assumes "getMarkRange pos type d = Some (a, b)"
  obtains start marks attributes where
    "start = pos \<or> start = pos - 1"
    "charMarks d start = Some marks"
    "isMarkInSet marks type attributes"
    "a = start - int (length (takeWhile (\<lambda>ch. isMarkInSet (snd ch) type attributes) (rev (take (nat start) d))))"
    "b = start + int (length (takeWhile (\<lambda>ch. isMarkInSet (snd ch) type attributes) (drop (nat start) d)))"
  using assms
  unfolding getMarkRange_def Let_def
  by (auto split: option.splits if_splits)

lemma getMarkRange_bounds:
  assumes "getMarkRange pos type d = Some (a, b)"
  shows "0 \<le> a \<and> a < b \<and> b \<le> contentSize d \<and> a \<le> pos \<and> pos \<le> b"
proof -
  from assms obtain start marks attributes where
    st: "start = pos \<or> start = pos - 1"
    and cm: "charMarks d start = Some marks"
    and inset: "isMarkInSet marks type attributes"
    and a: "a = start - int (length (takeWhile (\<lambda>ch. isMarkInSet (snd ch) type attributes) (rev (take (nat start) d))))"
    and b: "b = start + int (length (takeWhile (\<lambda>ch. isMarkInSet (snd ch) type attributes) (drop (nat start) d)))"
    by (rule getMarkRange_cases)
  let ?m = "\<lambda>ch. isMarkInSet (snd ch) type attributes"
  from cm have range: "0 \<le> start" "start < contentSize d" and marks: "marks = snd (d ! nat start)"
    by (auto simp: charMarks_def split: if_splits)
  have lt: "nat start < length d" using range by (simp add: contentSize_def)
  have "length (takeWhile ?m (rev (take (nat start) d))) \<le> length (rev (take (nat start) d))"
    by (rule length_takeWhile_le)
  also have "\<dots> = nat start" using lt by simp
  finally have a0: "0 \<le> a" "a \<le> start" using a range(1) by linarith+
  have "drop (nat start) d = d ! nat start # drop (Suc (nat start)) d"
    using lt by (simp add: Cons_nth_drop_Suc)
  then have "takeWhile ?m (drop (nat start) d) = d ! nat start # takeWhile ?m (drop (Suc (nat start)) d)"
    using inset marks by simp
  then have b1: "start < b" using b by simp
  have "length (takeWhile ?m (drop (nat start) d)) \<le> length (drop (nat start) d)"
    by (rule length_takeWhile_le)
  also have "\<dots> = length d - nat start" by simp
  finally have b2: "b \<le> contentSize d" using b lt range(1) by (simp add: contentSize_def)
  from a0 b1 b2 st show ?thesis by auto
qed









section \<open>The cursor scope and the commands\<close>

lemma takeWhile_forward:
  assumes "n = length (takeWhile P (drop s d))"
  shows "(\<forall>k<n. P (d ! (s + k))) \<and> (s + n < length d \<longrightarrow> \<not> P (d ! (s + n)))"
proof (intro conjI allI impI)
  fix k assume k: "k < n"
  then have "takeWhile P (drop s d) ! k \<in> set (takeWhile P (drop s d))"
    using assms by simp
  then have "P (takeWhile P (drop s d) ! k)" by (auto dest: set_takeWhileD)
  moreover have "takeWhile P (drop s d) ! k = drop s d ! k"
    using k assms by (simp add: takeWhile_nth)
  moreover have "k < length (drop s d)"
    using k assms length_takeWhile_le [of P "drop s d"] by linarith
  ultimately show "P (d ! (s + k))" by simp
next
  assume "s + n < length d"
  then have "n < length (drop s d)" by simp
  then have "\<not> P (drop s d ! n)"
    unfolding assms by (rule nth_length_takeWhile)
  then show "\<not> P (d ! (s + n))" using \<open>s + n < length d\<close> by simp
qed

lemma takeWhile_backward:
  assumes "n = length (takeWhile P (rev (take s d)))" and "s \<le> length d"
  shows "(\<forall>k<n. P (d ! (s - 1 - k))) \<and> (n < s \<longrightarrow> \<not> P (d ! (s - 1 - n)))"
proof -
  let ?ys = "rev (take s d)"
  have len: "length ?ys = s" using assms(2) by simp
  have nth: "\<And>k. k < s \<Longrightarrow> ?ys ! k = d ! (s - 1 - k)"
  proof -
    fix k assume k: "k < s"
    then have "?ys ! k = take s d ! (length (take s d) - Suc k)"
      using assms(2) by (simp add: rev_nth)
    also have "\<dots> = d ! (s - 1 - k)" using k assms(2) by simp
    finally show "?ys ! k = d ! (s - 1 - k)" .
  qed
  have n_le: "n \<le> s" using assms(1) len length_takeWhile_le [of P ?ys] by simp
  show ?thesis
  proof (intro conjI allI impI)
    fix k assume k: "k < n"
    then have "takeWhile P ?ys ! k \<in> set (takeWhile P ?ys)" using assms(1) by simp
    then have "P (takeWhile P ?ys ! k)" by (auto dest: set_takeWhileD)
    moreover have "takeWhile P ?ys ! k = ?ys ! k" using k assms(1) by (simp add: takeWhile_nth)
    ultimately show "P (d ! (s - 1 - k))" using nth [of k] k n_le by simp
  next
    assume "n < s"
    then have "n < length ?ys" using len by simp
    then have "\<not> P (?ys ! n)" unfolding assms(1) by (rule nth_length_takeWhile)
    then show "\<not> P (d ! (s - 1 - n))" using nth [of n] \<open>n < s\<close> by simp
  qed
qed

lemma getMarkRange_run:
  assumes "getMarkRange pos type d = Some (a, b)"
  shows "\<exists>attributes.
           (\<forall>i. a \<le> i \<and> i < b \<longrightarrow> (\<exists>ms. charMarks d i = Some ms \<and> isMarkInSet ms type attributes)) \<and>
           (\<forall>ms. charMarks d (a - 1) = Some ms \<longrightarrow> \<not> isMarkInSet ms type attributes) \<and>
           (\<forall>ms. charMarks d b = Some ms \<longrightarrow> \<not> isMarkInSet ms type attributes)"
proof -
  from assms obtain start marks attributes where
    cm: "charMarks d start = Some marks"
    and a: "a = start - int (length (takeWhile (\<lambda>ch. isMarkInSet (snd ch) type attributes) (rev (take (nat start) d))))"
    and b: "b = start + int (length (takeWhile (\<lambda>ch. isMarkInSet (snd ch) type attributes) (drop (nat start) d)))"
    by (rule getMarkRange_cases)
  let ?P = "\<lambda>ch. isMarkInSet (snd ch) type attributes"
  define s where "s = nat start"
  define nb where "nb = length (takeWhile ?P (rev (take s d)))"
  define nf where "nf = length (takeWhile ?P (drop s d))"
  from cm have range: "0 \<le> start" "start < contentSize d"
    by (auto simp: charMarks_def split: if_splits)
  have int_s: "int (nat start) = start" using range(1) by simp
  have s: "s < length d" using range by (simp add: s_def contentSize_def)
  have a': "a = int s - int nb"
    unfolding s_def nb_def int_s using a .
  have b': "b = int s + int nf"
    unfolding s_def nf_def int_s using b .
  have fwd: "\<forall>k<nf. ?P (d ! (s + k))" "s + nf < length d \<longrightarrow> \<not> ?P (d ! (s + nf))"
    using takeWhile_forward [OF nf_def] by blast+
  have bwd: "\<forall>k<nb. ?P (d ! (s - 1 - k))" "nb < s \<longrightarrow> \<not> ?P (d ! (s - 1 - nb))"
    using takeWhile_backward [OF nb_def] s by simp_all
  have nb_le: "nb \<le> s"
    using length_takeWhile_le [of ?P "rev (take s d)"] s by (simp add: nb_def)
  have nf_le: "s + nf \<le> length d"
    using length_takeWhile_le [of ?P "drop s d"] s by (simp add: nf_def)
  have inside: "\<forall>i. a \<le> i \<and> i < b \<longrightarrow> (\<exists>ms. charMarks d i = Some ms \<and> isMarkInSet ms type attributes)"
  proof (intro allI impI)
    fix i assume i: "a \<le> i \<and> i < b"
    then have i0: "0 \<le> i" "i < contentSize d"
      using a' b' nb_le nf_le by (simp_all add: contentSize_def)
    show "\<exists>ms. charMarks d i = Some ms \<and> isMarkInSet ms type attributes"
    proof (cases "i < int s")
      case True
      define k where "k = s - 1 - nat i"
      have "k < nb" using True i a' i0 by (simp add: k_def; linarith?)
      then have "?P (d ! (s - 1 - k))" using bwd(1) by blast
      moreover have "s - 1 - k = nat i" using True i0 by (simp add: k_def; linarith?)
      ultimately show ?thesis using i0 by (simp add: charMarks_def)
    next
      case False
      define k where "k = nat i - s"
      have "k < nf" using False i b' i0 by (simp add: k_def; linarith?)
      then have "?P (d ! (s + k))" using fwd(1) by blast
      moreover have "s + k = nat i" using False i0 by (simp add: k_def; linarith?)
      ultimately show ?thesis using i0 by (simp add: charMarks_def)
    qed
  qed
  have before: "\<forall>ms. charMarks d (a - 1) = Some ms \<longrightarrow> \<not> isMarkInSet ms type attributes"
  proof (intro allI impI)
    fix ms assume c: "charMarks d (a - 1) = Some ms"
    then have r: "0 \<le> a - 1" and ms: "ms = snd (d ! nat (a - 1))"
      by (auto simp: charMarks_def split: if_splits)
    then have "nb < s" using a' by linarith
    then have "\<not> ?P (d ! (s - 1 - nb))" using bwd(2) by blast
    moreover have "nat (a - 1) = s - 1 - nb" using a' r by linarith
    ultimately show "\<not> isMarkInSet ms type attributes" using ms by simp
  qed
  have after: "\<forall>ms. charMarks d b = Some ms \<longrightarrow> \<not> isMarkInSet ms type attributes"
  proof (intro allI impI)
    fix ms assume c: "charMarks d b = Some ms"
    then have r: "b < contentSize d" and ms: "ms = snd (d ! nat b)"
      by (auto simp: charMarks_def split: if_splits)
    then have "s + nf < length d" using b' by (simp add: contentSize_def)
    then have "\<not> ?P (d ! (s + nf))" using fwd(2) by blast
    moreover have "nat b = s + nf" using b' by simp
    ultimately show "\<not> isMarkInSet ms type attributes" using ms by simp
  qed
  from inside before after show ?thesis by blast
qed

lemma isMarkInSet_has_type: "isMarkInSet ms type attributes \<Longrightarrow> list_ex (\<lambda>m. mark_name m = type) ms"
  by (auto simp: isMarkInSet_def list_ex_iff)

lemma leftRange_type:
  assumes "leftRange st = Some (a, b)"
  shows "\<exists>type. (type = MARK_INSERTION \<or> type = MARK_DELETION) \<and>
           getMarkRange (selection_from st) type (state_doc st) = Some (a, b)"
  using assms by (auto simp: leftRange_def Let_def split: if_splits)

lemma scope_cursor_range:
  assumes op: "opType = TRACK_COMMAND_ACCEPT \<or> opType = TRACK_COMMAND_REJECT"
    and collapsed: "selection_from st = selection_to st"
    and left: "leftRange st = Some (a, b)"
  shows "scopeMarkRanges opType st =
         scopeMarkRanges opType (st\<lparr>selection_from := a, selection_to := b\<rparr>)"
proof -
  have ne: "a \<noteq> b"
    using leftRange_type [OF left] getMarkRange_bounds by fastforce
  have l: "scopeMarkRanges opType st =
           (case getMarksBetween a b (state_doc st) of
              Inl e \<Rightarrow> Inl e | Inr markRanges \<Rightarrow> Inr (markRanges, opType))"
    using op collapsed left by (simp add: scopeMarkRanges_def Let_def)
  have r: "scopeMarkRanges opType (st\<lparr>selection_from := a, selection_to := b\<rparr>) =
           (case getMarksBetween a b (state_doc st) of
              Inl e \<Rightarrow> Inl e | Inr markRanges \<Rightarrow> Inr (markRanges, opType))"
    using op ne by (auto simp: scopeMarkRanges_def Let_def)
  show ?thesis by (simp only: l r)
qed

text \<open>
  The scope of an accept or a reject on a collapsed selection: the mark range of an
  insertion mark when one is active at the cursor, else that of a deletion mark when one
  is active, else none. With no range found the call returns \<open>false\<close> and leaves the
  transaction as it was. With the range \<open>(a, b)\<close> found the call is the call on the
  selection from \<open>a\<close> to \<open>b\<close>; the range lies in the document, is not empty, holds
  the cursor, and is a full run: every character of it carries a matching mark of the
  type and the characters next to it on either side do not.
\<close>

lemma collapsed_selection_scope:
  assumes op: "opType = TRACK_COMMAND_ACCEPT \<or> opType = TRACK_COMMAND_REJECT"
    and collapsed: "selection_from st = selection_to st"
  shows "(isMarkActive st MARK_INSERTION \<longrightarrow>
            leftRange st = getMarkRange (selection_from st) MARK_INSERTION (state_doc st)) \<and>
         (\<not> isMarkActive st MARK_INSERTION \<and> isMarkActive st MARK_DELETION \<longrightarrow>
            leftRange st = getMarkRange (selection_from st) MARK_DELETION (state_doc st)) \<and>
         (\<not> isMarkActive st MARK_INSERTION \<and> \<not> isMarkActive st MARK_DELETION \<longrightarrow>
            leftRange st = None) \<and>
         (leftRange st = None \<longrightarrow> changeTrack opType st tr = Inr (False, tr)) \<and>
         (\<forall>a b. leftRange st = Some (a, b) \<longrightarrow>
            changeTrack opType st tr =
              changeTrack opType (st\<lparr>selection_from := a, selection_to := b\<rparr>) tr \<and>
            0 \<le> a \<and> a < b \<and> b \<le> contentSize (state_doc st) \<and>
            a \<le> selection_from st \<and> selection_from st \<le> b \<and>
            (\<exists>type attributes.
               (type = MARK_INSERTION \<or> type = MARK_DELETION) \<and>
               (\<forall>i. a \<le> i \<and> i < b \<longrightarrow>
                  (\<exists>ms. charMarks (state_doc st) i = Some ms \<and> isMarkInSet ms type attributes)) \<and>
               (\<forall>ms. charMarks (state_doc st) (a - 1) = Some ms \<longrightarrow>
                  \<not> isMarkInSet ms type attributes) \<and>
               (\<forall>ms. charMarks (state_doc st) b = Some ms \<longrightarrow>
                  \<not> isMarkInSet ms type attributes)))"
proof (intro conjI impI allI)
  show "isMarkActive st MARK_INSERTION \<Longrightarrow>
        leftRange st = getMarkRange (selection_from st) MARK_INSERTION (state_doc st)"
    by (simp add: leftRange_def)
  show "\<not> isMarkActive st MARK_INSERTION \<and> isMarkActive st MARK_DELETION \<Longrightarrow>
        leftRange st = getMarkRange (selection_from st) MARK_DELETION (state_doc st)"
    by (simp add: leftRange_def)
  show "\<not> isMarkActive st MARK_INSERTION \<and> \<not> isMarkActive st MARK_DELETION \<Longrightarrow>
        leftRange st = None"
    by (simp add: leftRange_def)
  show "leftRange st = None \<Longrightarrow> changeTrack opType st tr = Inr (False, tr)"
    using op collapsed by (simp add: changeTrack_def scopeMarkRanges_def Let_def)
next
  fix a b assume left: "leftRange st = Some (a, b)"
  show "changeTrack opType st tr = changeTrack opType (st\<lparr>selection_from := a, selection_to := b\<rparr>) tr"
    using scope_cursor_range [OF op collapsed left] by (simp add: changeTrack_def)
  from leftRange_type [OF left] obtain type where
    ty: "type = MARK_INSERTION \<or> type = MARK_DELETION"
    and g: "getMarkRange (selection_from st) type (state_doc st) = Some (a, b)"
    by blast
  from getMarkRange_bounds [OF g]
  show "0 \<le> a" "a < b" "b \<le> contentSize (state_doc st)" "a \<le> selection_from st" "selection_from st \<le> b"
    by simp_all
  from getMarkRange_run [OF g] ty
  show "\<exists>type attributes.
          (type = MARK_INSERTION \<or> type = MARK_DELETION) \<and>
          (\<forall>i. a \<le> i \<and> i < b \<longrightarrow>
             (\<exists>ms. charMarks (state_doc st) i = Some ms \<and> isMarkInSet ms type attributes)) \<and>
          (\<forall>ms. charMarks (state_doc st) (a - 1) = Some ms \<longrightarrow> \<not> isMarkInSet ms type attributes) \<and>
          (\<forall>ms. charMarks (state_doc st) b = Some ms \<longrightarrow> \<not> isMarkInSet ms type attributes)"
    by blast
qed

lemma cursorInWorld_left: "leftRange cursorInWorld = Some (6, 11)"
  by code_simp

lemma cursorInWorld_selected:
  "changeTrack TRACK_COMMAND_ACCEPT (cursorInWorld\<lparr>selection_from := 6, selection_to := 11\<rparr>)
     (state_tr cursorInWorld) =
   Inr (True, \<lparr>tr_doc = plainText ''hello '',
               tr_steps = [(ReplaceStep 6 11 [], state_doc cursorInWorld)],
               tr_meta = [(''trackManualChanged'', MetaBool True)],
                 tr_selection = None\<rparr>)"
  by code_simp

lemma plainHelloWorld_left: "leftRange plainHelloWorld = None"
  by code_simp

lemma cursor_in_deleted_word:
  "changeTrack TRACK_COMMAND_ACCEPT cursorInWorld (state_tr cursorInWorld) =
     Inr (True, \<lparr>tr_doc = plainText ''hello '',
                 tr_steps = [(ReplaceStep 6 11 [], state_doc cursorInWorld)],
                 tr_meta = [(''trackManualChanged'', MetaBool True)],
                 tr_selection = None\<rparr>) \<and>
   changeTrack TRACK_COMMAND_REJECT plainHelloWorld (state_tr plainHelloWorld) =
     Inr (False, state_tr plainHelloWorld)"
proof -
  have c1: "selection_from cursorInWorld = selection_to cursorInWorld"
    by (simp add: cursorInWorld_def)
  have c2: "selection_from plainHelloWorld = selection_to plainHelloWorld"
    by (simp add: plainHelloWorld_def)
  from collapsed_selection_scope [of TRACK_COMMAND_ACCEPT cursorInWorld "state_tr cursorInWorld", OF _ c1]
    cursorInWorld_left cursorInWorld_selected
  have "changeTrack TRACK_COMMAND_ACCEPT cursorInWorld (state_tr cursorInWorld) =
     Inr (True, \<lparr>tr_doc = plainText ''hello '',
                 tr_steps = [(ReplaceStep 6 11 [], state_doc cursorInWorld)],
                 tr_meta = [(''trackManualChanged'', MetaBool True)],
                 tr_selection = None\<rparr>)"
    by simp
  moreover from collapsed_selection_scope [of TRACK_COMMAND_REJECT plainHelloWorld "state_tr plainHelloWorld", OF _ c2]
    plainHelloWorld_left
  have "changeTrack TRACK_COMMAND_REJECT plainHelloWorld (state_tr plainHelloWorld) =
     Inr (False, state_tr plainHelloWorld)"
    by simp
  ultimately show ?thesis by simp
qed

text \<open>
  With the cursor inside a run the scope is that run, and the other runs stay as they
  are; at the end of a run that nothing of the same type follows, it is the run to the
  left.
\<close>

lemma cursor_inside_run:
  "leftRange (twoDeletions\<lparr>selection_from := 3, selection_to := 3\<rparr>) = Some (2, 4) \<and>
   changeTrack TRACK_COMMAND_ACCEPT (twoDeletions\<lparr>selection_from := 3, selection_to := 3\<rparr>)
     (state_tr twoDeletions) =
     Inr (True,
       \<lparr>tr_doc = plainText ''abef'' @ markedText [deletionByAlice] ''gh'' @ plainText ''ij'',
        tr_steps = [(ReplaceStep 2 4 [], state_doc twoDeletions)],
        tr_meta = [(''trackManualChanged'', MetaBool True)],
        tr_selection = None\<rparr>) \<and>
   leftRange (cursorBetweenRuns\<lparr>selection_from := 1, selection_to := 1\<rparr>) = Some (0, 2) \<and>
   leftRange (cursorBetweenRuns\<lparr>selection_from := 4, selection_to := 4\<rparr>) = Some (2, 4)"
  by code_simp

text \<open>
  C6: the claim is that on a collapsed selection the scope is the full run of the mark
  active at the cursor, which is the mark to the left of the cursor (the code calls it
  the left mark and its range \<open>leftRange\<close>), and that nothing happens when neither track
  mark is active. \<^verbatim>\<open>isMarkActive\<close> reads the marks to the left of the cursor, but
  \<^verbatim>\<open>getMarkRange\<close> starts from the node to its right whenever that node has a mark of
  the type. With the cursor between \<open>ab\<close>, deleted by Alice, and \<open>cd\<close>, deleted by
  Bob, the active mark is Alice's and \<open>leftRange\<close> is Bob's run \<open>(2, 4)\<close>: accept
  deletes \<open>cd\<close>, reject strips it, and \<open>ab\<close> to the left of the cursor stays as it
  was. (For the cursor inside a run and for no active mark see \<open>cursor_inside_run\<close> and
  \<open>collapsed_selection_scope\<close>; the call changes nothing outside the range it found, see
  \<open>changeTrack_scope\<close>.)
\<close>

theorem cursor_between_runs_takes_right_run:
  "resolvedMarks (selection_from cursorBetweenRuns) (state_doc cursorBetweenRuns) = [deletionByAlice] \<and>
   isMarkActive cursorBetweenRuns MARK_DELETION \<and>
   leftRange cursorBetweenRuns = Some (2, 4) \<and>
   scopeMarkRanges TRACK_COMMAND_ACCEPT cursorBetweenRuns =
     Inr ([MarkRange 2 4 deletionByBob], TRACK_COMMAND_ACCEPT) \<and>
   changeTrack TRACK_COMMAND_ACCEPT cursorBetweenRuns (state_tr cursorBetweenRuns) =
     Inr (True,
       \<lparr>tr_doc = markedText [deletionByAlice] ''ab'',
        tr_steps = [(ReplaceStep 2 4 [], state_doc cursorBetweenRuns)],
        tr_meta = [(''trackManualChanged'', MetaBool True)],
        tr_selection = None\<rparr>) \<and>
   changeTrack TRACK_COMMAND_REJECT cursorBetweenRuns (state_tr cursorBetweenRuns) =
     Inr (True,
       \<lparr>tr_doc = markedText [deletionByAlice] ''ab'' @ plainText ''cd'',
        tr_steps = [(RemoveMarkStep 2 4 MARK_DELETION, state_doc cursorBetweenRuns)],
        tr_meta = [(''trackManualChanged'', MetaBool True)],
        tr_selection = None\<rparr>)"
  by code_simp

lemma length_mapRange: "length (mapRange f from to d) = length d"
proof (cases "from < to")
  case False
  then show ?thesis by (simp add: mapRange_def)
next
  case True
  then have "nat from \<le> nat to" by simp
  then show ?thesis using True by (auto simp: mapRange_def min_def)
qed

lemma applyMarkRange_keep_size:
  assumes keep: "keepsContent opType (range_mark r)"
    and size: "contentSize (tr_doc tr) = N - offset"
    and to: "range_to r \<le> N"
  shows "\<exists>tr'. applyMarkRange opType r (tr, offset) = Inr (tr', offset) \<and>
               contentSize (tr_doc tr') = N - offset"
proof -
  have "range_to r - offset \<le> contentSize (tr_doc tr)" using size to by simp
  from removeMark_doc [OF this, of "range_from r - offset" MARK_INSERTION]
  obtain tr1 where r1: "removeMark (range_from r - offset) (range_to r - offset) MARK_INSERTION tr = Inr tr1"
      and d1: "tr_doc tr1 = mapRange (withoutMarkType MARK_INSERTION) (range_from r - offset)
                  (range_to r - offset) (tr_doc tr)"
    by blast
  have s1: "contentSize (tr_doc tr1) = N - offset"
    using d1 size by (simp add: contentSize_def length_mapRange)
  then have "range_to r - offset \<le> contentSize (tr_doc tr1)" using to by simp
  from removeMark_doc [OF this, of "range_from r - offset" MARK_DELETION]
  obtain tr2 where r2: "removeMark (range_from r - offset) (range_to r - offset) MARK_DELETION tr1 = Inr tr2"
      and d2: "tr_doc tr2 = mapRange (withoutMarkType MARK_DELETION) (range_from r - offset)
                  (range_to r - offset) (tr_doc tr1)"
    by blast
  have s2: "contentSize (tr_doc tr2) = N - offset"
    using d2 s1 by (simp add: contentSize_def length_mapRange)
  have "applyMarkRange opType r (tr, offset) = Inr (tr2, offset)"
    using keep r1 r2 by (auto simp: applyMarkRange_def keepsContent_def)
  with s2 show ?thesis by blast
qed

lemma applyMarkRange_delete_size:
  assumes del: "\<not> keepsContent opType (range_mark r)"
    and size: "contentSize (tr_doc tr) = N - offset"
    and range: "offset \<le> range_from r" "range_from r \<le> range_to r" "range_to r \<le> N"
  shows "\<exists>tr'. applyMarkRange opType r (tr, offset) =
                 Inr (tr', offset + (range_to r - range_from r)) \<and>
               contentSize (tr_doc tr') = N - (offset + (range_to r - range_from r))"
proof -
  let ?f = "range_from r - offset" and ?t = "range_to r - offset"
  have ok: "0 \<le> ?f" "?f \<le> ?t" "?t \<le> contentSize (tr_doc tr)"
    using size range by simp_all
  then obtain tr1 where r1: "deleteRange ?f ?t tr = Inr tr1"
      and d1: "tr_doc tr1 = (if ?f = ?t then tr_doc tr else take (nat ?f) (tr_doc tr) @ drop (nat ?t) (tr_doc tr))"
    by (auto simp: deleteRange_def Let_def)
  have "nat ?f \<le> length (tr_doc tr)" "nat ?t \<le> length (tr_doc tr)"
    using ok by (simp_all add: contentSize_def)
  then have "length (take (nat ?f) (tr_doc tr) @ drop (nat ?t) (tr_doc tr)) =
             nat ?f + (length (tr_doc tr) - nat ?t)"
    by simp
  then have "int (length (take (nat ?f) (tr_doc tr) @ drop (nat ?t) (tr_doc tr))) =
        contentSize (tr_doc tr) - (?t - ?f)"
    using ok by (simp add: contentSize_def)
  then have "contentSize (tr_doc tr1) = N - (offset + (range_to r - range_from r))"
    using d1 size by (auto simp: contentSize_def)
  moreover have "applyMarkRange opType r (tr, offset) = Inr (tr1, offset + (range_to r - range_from r))"
    using del r1 by (auto simp: applyMarkRange_def keepsContent_def)
  ultimately show ?thesis by blast
qed

lemma marks_keep_size:
  assumes "\<forall>m\<in>set tms. keepsContent opType m"
    and "contentSize (tr_doc tr) = N - offset"
    and "e \<le> N"
  shows "\<exists>tr'. forEachMarkRange opType (map (MarkRange q e) tms) (tr, offset) = Inr (tr', offset) \<and>
               contentSize (tr_doc tr') = N - offset"
  using assms(1,2)
proof (induction tms arbitrary: tr)
  case Nil
  then show ?case by simp
next
  case (Cons m tms)
  from applyMarkRange_keep_size [of opType "MarkRange q e m" tr N offset] Cons.prems assms(3)
  obtain tr1 where a: "applyMarkRange opType (MarkRange q e m) (tr, offset) = Inr (tr1, offset)"
      and s: "contentSize (tr_doc tr1) = N - offset"
    by auto
  from Cons.IH [OF _ s] Cons.prems(1)
  obtain tr' where "forEachMarkRange opType (map (MarkRange q e) tms) (tr1, offset) = Inr (tr', offset)"
      and "contentSize (tr_doc tr') = N - offset"
    by auto
  with a show ?case by simp
qed

lemma marks_size:
  assumes one: "length (filter (\<lambda>m. \<not> keepsContent opType m) tms) \<le> 1"
    and size: "contentSize (tr_doc tr) = N - offset"
    and range: "offset \<le> q" "q \<le> e" "e \<le> N"
  shows "\<exists>tr' offset'. forEachMarkRange opType (map (MarkRange q e) tms) (tr, offset) = Inr (tr', offset') \<and>
               contentSize (tr_doc tr') = N - offset' \<and> offset' \<le> e"
  using one size
proof (induction tms arbitrary: tr)
  case Nil
  then show ?case using range by simp
next
  case (Cons m tms)
  show ?case
  proof (cases "keepsContent opType m")
    case True
    from applyMarkRange_keep_size [of opType "MarkRange q e m" tr N offset] True Cons.prems(2) range(3)
    obtain tr1 where a: "applyMarkRange opType (MarkRange q e m) (tr, offset) = Inr (tr1, offset)"
        and s: "contentSize (tr_doc tr1) = N - offset"
      by auto
    have "length (filter (\<lambda>m. \<not> keepsContent opType m) tms) \<le> 1"
      using Cons.prems(1) True by simp
    from Cons.IH [OF this s] a show ?thesis by simp
  next
    case False
    from applyMarkRange_delete_size [of opType "MarkRange q e m" tr N offset] False Cons.prems(2) range
    obtain tr1 where a: "applyMarkRange opType (MarkRange q e m) (tr, offset) = Inr (tr1, offset + (e - q))"
        and s: "contentSize (tr_doc tr1) = N - (offset + (e - q))"
      by auto
    have rest: "\<forall>m\<in>set tms. keepsContent opType m"
    proof (rule ccontr)
      assume "\<not> (\<forall>m\<in>set tms. keepsContent opType m)"
      then have "filter (\<lambda>m. \<not> keepsContent opType m) tms \<noteq> []"
        by (simp add: filter_empty_conv)
      then have "0 < length (filter (\<lambda>m. \<not> keepsContent opType m) tms)" by simp
      with Cons.prems(1) False show False by simp
    qed
    from marks_keep_size [OF rest s range(3), of q]
    obtain tr' where "forEachMarkRange opType (map (MarkRange q e) tms) (tr1, offset + (e - q)) =
                        Inr (tr', offset + (e - q))"
        and "contentSize (tr_doc tr') = N - (offset + (e - q))"
      by blast
    moreover have "offset + (e - q) \<le> e" using range(1) by simp
    ultimately show ?thesis using a by simp
  qed
qed

lemma nodes_size:
  assumes op: "opType = TRACK_COMMAND_ACCEPT \<or> opType = TRACK_COMMAND_REJECT"
    and wf: "\<forall>n\<in>set ns. length (filter (\<lambda>m. mark_name m = discardedType opType) (nodeMarks n)) \<le> 1"
    and size: "contentSize (tr_doc tr) = N - offset"
    and range: "offset \<le> p" "p + int (length (concat ns)) \<le> N"
  shows "\<exists>tr' offset'.
           forEachMarkRange opType
             (filter isTrackRange (concat (map nodeRanges (filter P (nodePositions p ns)))))
             (tr, offset) = Inr (tr', offset')"
  using wf size range
proof (induction ns arbitrary: p tr offset)
  case Nil
  then show ?case by simp
next
  case (Cons n ns)
  let ?tms = "filter isTrackMark (nodeMarks n)"
  let ?e = "p + int (length n)"
  have wf1: "\<forall>n\<in>set ns. length (filter (\<lambda>m. mark_name m = discardedType opType) (nodeMarks n)) \<le> 1"
    using Cons.prems(1) by simp
  have r1: "?e + int (length (concat ns)) \<le> N" using Cons.prems(4) by simp
  show ?case
  proof (cases "P (p, n)")
    case False
    have "offset \<le> ?e" using Cons.prems(3) by simp
    from Cons.IH [OF wf1 Cons.prems(2) this r1] False show ?thesis
      by (simp add: nodeSize_def)
  next
    case True
    have "filter (\<lambda>m. \<not> keepsContent opType m) ?tms =
          filter (\<lambda>m. mark_name m = discardedType opType) (nodeMarks n)"
      using keeps_or_discarded [OF op] discarded_is_track [of _ opType]
      by (auto simp: filter_filter intro!: filter_cong)
    then have one: "length (filter (\<lambda>m. \<not> keepsContent opType m) ?tms) \<le> 1"
      using Cons.prems(1) by simp
    have "?e \<le> N" using Cons.prems(4) by simp
    from marks_size [OF one Cons.prems(2) Cons.prems(3) _ this]
    obtain tr1 off1 where f1: "forEachMarkRange opType (map (MarkRange p ?e) ?tms) (tr, offset) = Inr (tr1, off1)"
        and s1: "contentSize (tr_doc tr1) = N - off1" and o1: "off1 \<le> ?e"
      by auto
    from Cons.IH [OF wf1 s1 o1 r1]
    obtain tr' offset' where f2: "forEachMarkRange opType
        (filter isTrackRange (concat (map nodeRanges (filter P (nodePositions ?e ns)))))
        (tr1, off1) = Inr (tr', offset')"
      by blast
    have split: "filter isTrackRange (concat (map nodeRanges (filter P (nodePositions p (n # ns))))) =
        map (MarkRange p ?e) ?tms @
        filter isTrackRange (concat (map nodeRanges (filter P (nodePositions ?e ns))))"
      using True by (simp add: filter_track_nodeRanges nodeSize_def)
    show ?thesis
      unfolding split forEachMarkRange_append using f1 f2 by simp
  qed
qed

lemma scope_shape:
  assumes wf: "wellFormed st"
  shows "\<exists>rs opType'. scopeMarkRanges opType st = Inr (rs, opType') \<and>
           (opType' = TRACK_COMMAND_ACCEPT \<or> opType' = TRACK_COMMAND_REJECT) \<and>
           (rs = [] \<or> (\<exists>P. rs = concat (map nodeRanges (filter P (nodePositions 0 (content (state_doc st)))))))"
proof -
  let ?d = "state_doc st"
  let ?from = "selection_from st" and ?to = "selection_to st"
  have sel: "?to \<le> contentSize ?d" using wf by (simp add: wellFormed_def)
  have part: "\<And>a b. a \<noteq> b \<Longrightarrow> b \<le> contentSize ?d \<Longrightarrow>
      \<exists>rs. getMarksBetween a b ?d = Inr rs \<and>
           (\<exists>P. rs = concat (map nodeRanges (filter P (nodePositions 0 (content ?d)))))"
    using getMarksBetween_nodes by blast
  have whole: "\<exists>rs. getMarksBetween 0 (contentSize ?d) ?d = Inr rs \<and>
      (rs = [] \<or> (\<exists>P. rs = concat (map nodeRanges (filter P (nodePositions 0 (content ?d))))))"
  proof (cases "?d = []")
    case True
    then show ?thesis using getMarksBetween_empty_doc by simp
  next
    case False
    have "nodePositions 0 (content ?d) = filter (\<lambda>_. True) (nodePositions 0 (content ?d))" by simp
    with getMarksBetween_whole [OF False] show ?thesis by metis
  qed
  consider
      (cursor) "(opType = TRACK_COMMAND_ACCEPT \<or> opType = TRACK_COMMAND_REJECT) \<and> ?from = ?to"
    | (whole) "opType = TRACK_COMMAND_ACCEPT_ALL \<or> opType = TRACK_COMMAND_REJECT_ALL"
    | (selection) "(opType = TRACK_COMMAND_ACCEPT \<or> opType = TRACK_COMMAND_REJECT) \<and> ?from \<noteq> ?to"
    by (cases opType) auto
  then show ?thesis
  proof cases
    case cursor
    show ?thesis
    proof (cases "leftRange st")
      case None
      with cursor show ?thesis by (auto simp: scopeMarkRanges_def Let_def)
    next
      case (Some range)
      obtain a b where ab: "range = (a, b)" by (cases range)
      from leftRange_type [of st a b] Some ab getMarkRange_bounds
      have "a \<noteq> b" "b \<le> contentSize ?d" by fastforce+
      from part [OF this] obtain rs P where "getMarksBetween a b ?d = Inr rs"
          and "rs = concat (map nodeRanges (filter P (nodePositions 0 (content ?d))))"
        by blast
      with cursor Some ab show ?thesis by (auto simp: scopeMarkRanges_def Let_def)
    qed
  next
    case whole
    with \<open>\<exists>rs. getMarksBetween 0 (contentSize ?d) ?d = Inr rs \<and> _\<close>
    show ?thesis by (auto simp: scopeMarkRanges_def Let_def)
  next
    case selection
    then have "?from \<noteq> ?to" by simp
    from part [OF this sel] obtain rs P where "getMarksBetween ?from ?to ?d = Inr rs"
        and "rs = concat (map nodeRanges (filter P (nodePositions 0 (content ?d))))"
      by blast
    with selection show ?thesis by (auto simp: scopeMarkRanges_def Let_def)
  qed
qed

lemma changeTrack_returns:
  assumes wf: "wellFormed st" and doc: "tr_doc tr = state_doc st"
  shows "\<exists>changed tr'. changeTrack opType st tr = Inr (changed, tr')"
proof -
  let ?d = "state_doc st"
  from scope_shape [OF wf, of opType] obtain rs opType' where
    scope: "scopeMarkRanges opType st = Inr (rs, opType')"
    and op: "opType' = TRACK_COMMAND_ACCEPT \<or> opType' = TRACK_COMMAND_REJECT"
    and shape: "rs = [] \<or> (\<exists>P. rs = concat (map nodeRanges (filter P (nodePositions 0 (content ?d)))))"
    by blast
  show ?thesis
  proof (cases "filter isTrackRange rs = []")
    case True
    with scope have "changeTrack opType st tr = Inr (False, tr)" by (simp add: changeTrack_def)
    then show ?thesis by blast
  next
    case False
    with shape obtain P where rs: "rs = concat (map nodeRanges (filter P (nodePositions 0 (content ?d))))"
      by auto
    have wfn: "\<forall>n\<in>set (content ?d).
                 length (filter (\<lambda>m. mark_name m = discardedType opType') (nodeMarks n)) \<le> 1"
    proof
      fix n assume "n \<in> set (content ?d)"
      then obtain ch where "ch \<in> set ?d" "nodeMarks n = snd ch"
        using content_nodeMarks_in_doc by blast
      with wf show "length (filter (\<lambda>m. mark_name m = discardedType opType') (nodeMarks n)) \<le> 1"
        by (auto simp: wellFormed_def list_all_iff discardedType_def)
    qed
    have size: "contentSize (tr_doc tr) = contentSize ?d - 0" by (simp add: doc)
    have "0 + int (length (concat (content ?d))) \<le> contentSize ?d"
      by (simp add: content_concat contentSize_def)
    from nodes_size [OF op wfn size _ this, of P]
    obtain tr' offset' where "forEachMarkRange opType' (filter isTrackRange rs) (tr, 0) = Inr (tr', offset')"
      unfolding rs by auto
    with scope False show ?thesis by (auto simp: changeTrack_def)
  qed
qed

lemma runChangeTrack_false:
  assumes "wellFormed (editor_state (props_editor param))"
    and "tr_doc (props_tr param) = state_doc (editor_state (props_editor param))"
  shows "\<exists>p. runChangeTrack opType param = Inr (False, p)"
proof -
  from changeTrack_returns [OF assms, of opType]
  obtain changed tr' where
    "changeTrack opType (editor_state (props_editor param)) (props_tr param) = Inr (changed, tr')"
    by blast
  then show ?thesis by (simp add: runChangeTrack_def)
qed

lemma runChangeTrack_never_true: "runChangeTrack opType param \<noteq> Inr (True, p)"
  by (auto simp: runChangeTrack_def split: sum.splits)

text \<open>
  C9: \<^verbatim>\<open>setTrackChangeStatus\<close>, \<^verbatim>\<open>toggleTrackChangeStatus\<close>, \<^verbatim>\<open>acceptChange\<close>,
  \<^verbatim>\<open>acceptAllChanges\<close>, \<^verbatim>\<open>rejectChange\<close>, \<^verbatim>\<open>rejectAllChanges\<close> and
  \<^verbatim>\<open>updateOpUserOption\<close> never return \<open>true\<close>, whatever the arguments and the editor;
  and in an editor that has the extension registered, with a selection inside the
  document, at most one mark of each track type on a character and a transaction
  starting from the state's document, each of them returns \<open>false\<close>, also when it
  has changed the options or the document.
\<close>

theorem commands_return_false:
  "(getSelfExt (props_editor param) \<noteq> None \<and>
    wellFormed (editor_state (props_editor param)) \<and>
    tr_doc (props_tr param) = state_doc (editor_state (props_editor param)) \<longrightarrow>
      (\<exists>p. setTrackChangeStatus value param = Inr (False, p)) \<and>
      (\<exists>p. toggleTrackChangeStatus param = Inr (False, p)) \<and>
      (\<exists>p. acceptChange param = Inr (False, p)) \<and>
      (\<exists>p. acceptAllChanges param = Inr (False, p)) \<and>
      (\<exists>p. rejectChange param = Inr (False, p)) \<and>
      (\<exists>p. rejectAllChanges param = Inr (False, p)) \<and>
      (\<exists>p. updateOpUserOption opUserId opUserNickname param = Inr (False, p))) \<and>
   (\<forall>p. setTrackChangeStatus value param \<noteq> Inr (True, p) \<and>
        toggleTrackChangeStatus param \<noteq> Inr (True, p) \<and>
        acceptChange param \<noteq> Inr (True, p) \<and>
        acceptAllChanges param \<noteq> Inr (True, p) \<and>
        rejectChange param \<noteq> Inr (True, p) \<and>
        rejectAllChanges param \<noteq> Inr (True, p) \<and>
        updateOpUserOption opUserId opUserNickname param \<noteq> Inr (True, p))"
proof (intro conjI impI allI)
  assume a: "getSelfExt (props_editor param) \<noteq> None \<and>
    wellFormed (editor_state (props_editor param)) \<and>
    tr_doc (props_tr param) = state_doc (editor_state (props_editor param))"
  then obtain ext where ext: "getSelfExt (props_editor param) = Some ext" by auto
  show "\<exists>p. setTrackChangeStatus value param = Inr (False, p)"
    using ext by (simp add: setTrackChangeStatus_def)
  show "\<exists>p. toggleTrackChangeStatus param = Inr (False, p)"
    using ext by (simp add: toggleTrackChangeStatus_def)
  show "\<exists>p. updateOpUserOption opUserId opUserNickname param = Inr (False, p)"
    using ext by (simp add: updateOpUserOption_def)
  show "\<exists>p. acceptChange param = Inr (False, p)"
    unfolding acceptChange_def using a by (intro runChangeTrack_false) simp_all
  show "\<exists>p. acceptAllChanges param = Inr (False, p)"
    unfolding acceptAllChanges_def using a by (intro runChangeTrack_false) simp_all
  show "\<exists>p. rejectChange param = Inr (False, p)"
    unfolding rejectChange_def using a by (intro runChangeTrack_false) simp_all
  show "\<exists>p. rejectAllChanges param = Inr (False, p)"
    unfolding rejectAllChanges_def using a by (intro runChangeTrack_false) simp_all
next
  fix p
  show "setTrackChangeStatus value param \<noteq> Inr (True, p)"
    by (auto simp: setTrackChangeStatus_def split: option.splits)
  show "toggleTrackChangeStatus param \<noteq> Inr (True, p)"
    by (auto simp: toggleTrackChangeStatus_def split: option.splits)
  show "updateOpUserOption opUserId opUserNickname param \<noteq> Inr (True, p)"
    by (auto simp: updateOpUserOption_def split: option.splits)
  show "acceptChange param \<noteq> Inr (True, p)"
    unfolding acceptChange_def by (rule runChangeTrack_never_true)
  show "acceptAllChanges param \<noteq> Inr (True, p)"
    unfolding acceptAllChanges_def by (rule runChangeTrack_never_true)
  show "rejectChange param \<noteq> Inr (True, p)"
    unfolding rejectChange_def by (rule runChangeTrack_never_true)
  show "rejectAllChanges param \<noteq> Inr (True, p)"
    unfolding rejectAllChanges_def by (rule runChangeTrack_never_true)
qed

lemma reviewProps_ok:
  "getSelfExt (props_editor reviewProps) \<noteq> None \<and>
   wellFormed (editor_state (props_editor reviewProps)) \<and>
   tr_doc (props_tr reviewProps) = state_doc (editor_state (props_editor reviewProps))"
  by code_simp

lemma reviewProps_enable:
  "setTrackChangeStatus True reviewProps = Inr (b, p) \<Longrightarrow>
   map (enabled \<circ> options) (extensions (props_editor p)) = [False, True] \<and>
   statusChanges (props_editor p) = [True]"
  by (auto simp: setTrackChangeStatus_def reviewProps_def reviewEditor_def getSelfExt_def isSelfExt_def
        assignOptions_def notifyStatusChange_def EXTENSION_NAME_def MARK_INSERTION_def)

lemma reviewProps_acceptAll:
  "acceptAllChanges reviewProps = Inr (b, p) \<Longrightarrow> tr_doc (props_tr p) = plainText ''hello ''"
proof -
  have "changeTrack TRACK_COMMAND_ACCEPT_ALL helloWorldDeleted (state_tr helloWorldDeleted) =
     Inr (True, \<lparr>tr_doc = plainText ''hello '',
                 tr_steps = [(ReplaceStep 6 11 [], state_doc helloWorldDeleted)],
                 tr_meta = [(''trackManualChanged'', MetaBool True)],
                 tr_selection = None\<rparr>)"
    by code_simp
  then show "acceptAllChanges reviewProps = Inr (b, p) \<Longrightarrow> tr_doc (props_tr p) = plainText ''hello ''"
    by (auto simp: acceptAllChanges_def runChangeTrack_def reviewProps_def reviewEditor_def)
qed

theorem commands_return_false_example:
  "(\<exists>p. setTrackChangeStatus True reviewProps = Inr (False, p) \<and>
        map (enabled \<circ> options) (extensions (props_editor p)) = [False, True] \<and>
        statusChanges (props_editor p) = [True]) \<and>
   (\<exists>p. acceptAllChanges reviewProps = Inr (False, p) \<and> tr_doc (props_tr p) = plainText ''hello '')"
  using commands_return_false [of reviewProps True "''u2''" "''Bob''"] reviewProps_ok
    reviewProps_enable reviewProps_acceptAll
  by blast

section \<open>The scope of a call, node by node\<close>

lemma nodePositions_append:
  "nodePositions p (xs @ ys) = nodePositions p xs @ nodePositions (p + int (length (concat xs))) ys"
  by (induction xs arbitrary: p) (simp_all add: nodeSize_def add.assoc)

lemma nodePositions_upper:
  "(q, n) \<in> set (nodePositions p ns) \<Longrightarrow> q + nodeSize n \<le> p + int (length (concat ns))"
proof (induction ns arbitrary: p)
  case Nil
  then show ?case by simp
next
  case (Cons a ns)
  then show ?case by (fastforce simp: nodeSize_def)
qed

lemma removeMark_exact:
  assumes "tr_doc tr = a @ x @ b"
  shows "removeMark (int (length a)) (int (length a) + int (length x)) type tr =
         Inr (if map (withoutMarkType type) x = x then tr
              else tr\<lparr>tr_doc := a @ map (withoutMarkType type) x @ b,
                      tr_steps := tr_steps tr @
                        [(RemoveMarkStep (int (length a)) (int (length a) + int (length x)) type,
                          a @ x @ b)]\<rparr>)"
proof -
  have "int (length a) + int (length x) \<le> contentSize (tr_doc tr)"
    by (simp add: assms contentSize_def)
  from nodesBetween_no_error [OF this]
  obtain visited where "nodesBetween (int (length a)) (int (length a) + int (length x)) (tr_doc tr) = Inr visited"
    by blast
  then show ?thesis
    by (simp add: removeMark_def Let_def assms mapRange_middle)
qed

lemma deleteRange_exact:
  assumes "tr_doc tr = a @ x @ b" and "x \<noteq> []"
  shows "deleteRange (int (length a)) (int (length a) + int (length x)) tr =
         Inr (tr\<lparr>tr_doc := a @ b,
                 tr_steps := tr_steps tr @
                   [(ReplaceStep (int (length a)) (int (length a) + int (length x)) [], a @ x @ b)]\<rparr>)"
  using assms by (simp add: deleteRange_def Let_def contentSize_def nat_add_distrib)

lemma withoutMarkType_changes: "hasMarkType type ch \<Longrightarrow> withoutMarkType type ch \<noteq> ch"
proof
  assume h: "hasMarkType type ch" and e: "withoutMarkType type ch = ch"
  from e have "filter (\<lambda>m. mark_name m \<noteq> type) (snd ch) = snd ch"
    by (cases ch) (simp add: withoutMarkType_def)
  then have "\<forall>m\<in>set (snd ch). mark_name m \<noteq> type"
    by (simp add: filter_id_conv)
  with h show False by (auto simp: hasMarkType_def list_ex_iff)
qed

lemma map_without_changes:
  assumes "x \<noteq> []" and "\<forall>ch\<in>set x. hasMarkType type ch"
  shows "map (withoutMarkType type) x \<noteq> x"
proof
  assume "map (withoutMarkType type) x = x"
  then have "map (withoutMarkType type) x = map id x" by simp
  then have "\<forall>ch\<in>set x. withoutMarkType type ch = ch"
    by (simp only: map_eq_conv) simp
  moreover obtain ch where "ch \<in> set x" using assms(1) by (cases x) auto
  ultimately show False using assms(2) withoutMarkType_changes by blast
qed

lemma map_without_same:
  assumes "\<forall>ch\<in>set x. \<not> hasMarkType type ch"
  shows "map (withoutMarkType type) x = x"
  using assms by (intro map_fixed) (simp add: withoutMarkType_id)

lemma strip_pass_exact:
  assumes keep: "keepsContent opType m"
    and doc: "tr_doc tr = a @ x @ b"
  shows "applyMarkRange opType (MarkRange (int (length a)) (int (length a) + int (length x)) m) (tr, 0) =
         Inr (let tr1 = (if map (withoutMarkType MARK_INSERTION) x = x then tr
                         else tr\<lparr>tr_doc := a @ map (withoutMarkType MARK_INSERTION) x @ b,
                                 tr_steps := tr_steps tr @
                                   [(RemoveMarkStep (int (length a)) (int (length a) + int (length x))
                                       MARK_INSERTION, a @ x @ b)]\<rparr>)
              in if map stripTrack x = map (withoutMarkType MARK_INSERTION) x then tr1
                 else tr1\<lparr>tr_doc := a @ map stripTrack x @ b,
                          tr_steps := tr_steps tr1 @
                            [(RemoveMarkStep (int (length a)) (int (length a) + int (length x))
                                MARK_DELETION, a @ map (withoutMarkType MARK_INSERTION) x @ b)]\<rparr>,
              0)"
proof -
  let ?x1 = "map (withoutMarkType MARK_INSERTION) x"
  let ?tr1 = "if ?x1 = x then tr
              else tr\<lparr>tr_doc := a @ ?x1 @ b,
                      tr_steps := tr_steps tr @
                        [(RemoveMarkStep (int (length a)) (int (length a) + int (length x))
                            MARK_INSERTION, a @ x @ b)]\<rparr>"
  have r1: "removeMark (int (length a)) (int (length a) + int (length x)) MARK_INSERTION tr = Inr ?tr1"
    by (rule removeMark_exact [OF doc])
  have d1: "tr_doc ?tr1 = a @ ?x1 @ b"
    using doc by auto
  have len: "int (length ?x1) = int (length x)" by simp
  have r2: "removeMark (int (length a)) (int (length a) + int (length x)) MARK_DELETION ?tr1 =
            Inr (if map (withoutMarkType MARK_DELETION) ?x1 = ?x1 then ?tr1
                 else ?tr1\<lparr>tr_doc := a @ map (withoutMarkType MARK_DELETION) ?x1 @ b,
                           tr_steps := tr_steps ?tr1 @
                             [(RemoveMarkStep (int (length a)) (int (length a) + int (length x))
                                 MARK_DELETION, a @ ?x1 @ b)]\<rparr>)"
    using removeMark_exact [OF d1, of MARK_DELETION] unfolding len .
  have st: "map (withoutMarkType MARK_DELETION) ?x1 = map stripTrack x"
    by (rule map_stripTrack)
  have "applyMarkRange opType (MarkRange (int (length a)) (int (length a) + int (length x)) m) (tr, 0) =
        (case removeMark (int (length a)) (int (length a) + int (length x)) MARK_INSERTION tr of
           Inl e \<Rightarrow> Inl e
         | Inr tr1 \<Rightarrow>
             (case removeMark (int (length a)) (int (length a) + int (length x)) MARK_DELETION tr1 of
                Inl e \<Rightarrow> Inl e
              | Inr tr2 \<Rightarrow> Inr (tr2, 0)))"
    using keep by (auto simp: applyMarkRange_def keepsContent_def split: sum.splits)
  also have "\<dots> = Inr (if map stripTrack x = ?x1 then ?tr1
                 else ?tr1\<lparr>tr_doc := a @ map stripTrack x @ b,
                           tr_steps := tr_steps ?tr1 @
                             [(RemoveMarkStep (int (length a)) (int (length a) + int (length x))
                                 MARK_DELETION, a @ ?x1 @ b)]\<rparr>, 0)"
    unfolding r1 sum.case r2 st by simp
  finally show ?thesis by (simp only: Let_def)
qed

lemma node_has_type:
  assumes "\<forall>ch\<in>set x. snd ch = ms" and "m \<in> set ms"
  shows "\<forall>ch\<in>set x. hasMarkType (mark_name m) ch"
  using assms by (auto simp: hasMarkType_def list_ex_iff)

lemma node_lacks_type:
  assumes "\<forall>ch\<in>set x. snd ch = ms" and "\<forall>m\<in>set ms. mark_name m \<noteq> t"
  shows "\<forall>ch\<in>set x. \<not> hasMarkType t ch"
  using assms by (auto simp: hasMarkType_def list_ex_iff)

lemma track_types_differ: "MARK_INSERTION \<noteq> MARK_DELETION"
  by (simp add: MARK_INSERTION_def MARK_DELETION_def)

text \<open>
  The scope of a call is what \<^verbatim>\<open>getMarksBetween\<close> gathers on the addressed range, and
  the operation is the one applied range by range.
\<close>

lemma scope_addressed:
  "scopeMarkRanges opType st =
     (case addressedRange opType st of
        None \<Rightarrow> Inr ([], opType)
      | Some (f, t) \<Rightarrow>
          (case getMarksBetween f t (state_doc st) of
             Inl e \<Rightarrow> Inl e
           | Inr markRanges \<Rightarrow> Inr (markRanges, normalOp opType)))"
  by (cases opType)
     (auto simp: scopeMarkRanges_def addressedRange_def normalOp_def Let_def
           split: option.splits sum.splits)

lemma normalOp_cases:
  "normalOp opType = TRACK_COMMAND_ACCEPT \<or> normalOp opType = TRACK_COMMAND_REJECT"
  by (cases opType) (simp_all add: normalOp_def)

text \<open>
  The loop on the marks of one node, and on the nodes of a stretch of the document, where
  in every node the marks that keep come before the mark that deletes. No assumption is
  made on what lies in front of the stretch.
\<close>

lemma marks_loop_ord:
  assumes ord: "length (dropWhile (keepsContent opType) tms) \<le> 1"
    and doc: "tr_doc tr = a @ x @ b"
  shows "\<exists>tr'. forEachMarkRange opType (map (MarkRange q (q + int (length x))) tms)
                 (tr, q - int (length a)) =
               Inr (tr', (q + int (length x)) - int (length (a @
                      (if list_ex (\<lambda>m. \<not> keepsContent opType m) tms then []
                       else if tms = [] then x else map stripTrack x)))) \<and>
               tr_doc tr' = a @ (if list_ex (\<lambda>m. \<not> keepsContent opType m) tms then []
                                 else if tms = [] then x else map stripTrack x) @ b"
  using ord doc
proof (induction tms arbitrary: tr x)
  case Nil
  then show ?case by simp
next
  case (Cons m tms)
  let ?r = "MarkRange q (q + int (length x)) m"
  show ?case
  proof (cases "keepsContent opType m")
    case True
    obtain tr1 where a1: "applyMarkRange opType ?r (tr, q - int (length a)) = Inr (tr1, q - int (length a))"
        and d1: "tr_doc tr1 = a @ map stripTrack x @ b"
      using applyMarkRange_keep [of opType ?r tr a x b "q - int (length a)"] True Cons.prems(2)
      by auto
    have ord': "length (dropWhile (keepsContent opType) tms) \<le> 1"
      using Cons.prems(1) True by simp
    from Cons.IH [OF ord' d1]
    obtain tr' where f: "forEachMarkRange opType (map (MarkRange q (q + int (length (map stripTrack x)))) tms)
                 (tr1, q - int (length a)) =
               Inr (tr', (q + int (length (map stripTrack x))) - int (length (a @
                      (if list_ex (\<lambda>m. \<not> keepsContent opType m) tms then []
                       else if tms = [] then map stripTrack x else map stripTrack (map stripTrack x)))))"
        and d: "tr_doc tr' = a @ (if list_ex (\<lambda>m. \<not> keepsContent opType m) tms then []
                                 else if tms = [] then map stripTrack x else map stripTrack (map stripTrack x)) @ b"
      by blast
    have "forEachMarkRange opType (map (MarkRange q (q + int (length x))) (m # tms)) (tr, q - int (length a))
          = forEachMarkRange opType (map (MarkRange q (q + int (length x))) tms) (tr1, q - int (length a))"
      using a1 by simp
    with f d True show ?thesis
      by (auto simp: stripTrack_twice)
  next
    case False
    obtain tr1 where a1: "applyMarkRange opType ?r (tr, q - int (length a)) =
                           Inr (tr1, q - int (length a) + (range_to ?r - range_from ?r))"
        and d1: "tr_doc tr1 = a @ b"
      using applyMarkRange_delete [of opType ?r tr a x b "q - int (length a)"] False Cons.prems(2)
      by auto
    have rest: "tms = []"
      using Cons.prems(1) False by simp
    have off: "q - int (length a) + (range_to ?r - range_from ?r) = q + int (length x) - int (length a)"
      by simp
    from a1 d1 False rest show ?thesis
      unfolding off by simp
  qed
qed

lemma nodes_loop_ord:
  assumes op: "opType = TRACK_COMMAND_ACCEPT \<or> opType = TRACK_COMMAND_REJECT"
    and nodes: "\<forall>n\<in>set ns. \<forall>ch\<in>set n. snd ch = nodeMarks n"
    and ord: "\<forall>n\<in>set ns. stripsFirst opType n"
    and doc: "tr_doc tr = a @ concat ns @ b"
  shows "\<exists>tr'.
           forEachMarkRange opType (filter isTrackRange (concat (map nodeRanges (nodePositions p ns))))
             (tr, p - int (length a)) =
             Inr (tr', (p + int (length (concat ns))) -
                       int (length (a @ resolvedDoc (discardedType opType) (concat ns)))) \<and>
           tr_doc tr' = a @ resolvedDoc (discardedType opType) (concat ns) @ b"
  using nodes ord doc
proof (induction ns arbitrary: p a tr)
  case Nil
  then show ?case by (simp add: resolvedDoc_def)
next
  case (Cons n ns)
  let ?tms = "filter isTrackMark (nodeMarks n)"
  let ?y = "if list_ex (\<lambda>m. \<not> keepsContent opType m) ?tms then []
            else if ?tms = [] then n else map stripTrack n"
  have uni: "\<forall>ch\<in>set n. snd ch = nodeMarks n" using Cons.prems(1) by simp
  have y: "?y = resolvedDoc (discardedType opType) n"
    using resolvedDoc_node [OF op uni] by simp
  have one: "length (dropWhile (keepsContent opType) ?tms) \<le> 1"
    using Cons.prems(2) by (simp add: stripsFirst_def)
  have doc1: "tr_doc tr = a @ n @ (concat ns @ b)" using Cons.prems(3) by simp
  from marks_loop_ord [OF one doc1, of p]
  obtain tr1 where f1: "forEachMarkRange opType (map (MarkRange p (p + int (length n))) ?tms)
                 (tr, p - int (length a)) = Inr (tr1, (p + int (length n)) - int (length (a @ ?y)))"
      and d1: "tr_doc tr1 = a @ ?y @ (concat ns @ b)"
    by blast
  have d1': "tr_doc tr1 = (a @ ?y) @ concat ns @ b" using d1 by simp
  have n1: "\<forall>n\<in>set ns. \<forall>ch\<in>set n. snd ch = nodeMarks n"
    and ord1: "\<forall>n\<in>set ns. stripsFirst opType n"
    using Cons.prems(1,2) by simp_all
  from Cons.IH [OF n1 ord1 d1', of "p + int (length n)"]
  obtain tr' where f2: "forEachMarkRange opType
        (filter isTrackRange (concat (map nodeRanges (nodePositions (p + int (length n)) ns))))
        (tr1, (p + int (length n)) - int (length (a @ ?y))) =
        Inr (tr', (p + int (length n) + int (length (concat ns))) -
                  int (length ((a @ ?y) @ resolvedDoc (discardedType opType) (concat ns))))"
      and d2: "tr_doc tr' = (a @ ?y) @ resolvedDoc (discardedType opType) (concat ns) @ b"
    by blast
  have split: "filter isTrackRange (concat (map nodeRanges (nodePositions p (n # ns)))) =
        map (MarkRange p (p + int (length n))) ?tms @
        filter isTrackRange (concat (map nodeRanges (nodePositions (p + int (length n)) ns)))"
    by (simp add: filter_track_nodeRanges nodeSize_def)
  have res: "resolvedDoc (discardedType opType) (concat (n # ns)) =
             ?y @ resolvedDoc (discardedType opType) (concat ns)"
    unfolding y by (simp add: resolvedDoc_append)
  have "forEachMarkRange opType (filter isTrackRange (concat (map nodeRanges (nodePositions p (n # ns)))))
          (tr, p - int (length a)) =
        Inr (tr', (p + int (length n) + int (length (concat ns))) -
                  int (length ((a @ ?y) @ resolvedDoc (discardedType opType) (concat ns))))"
    unfolding split forEachMarkRange_append using f1 f2 by simp
  moreover have "tr_doc tr' = a @ resolvedDoc (discardedType opType) (concat (n # ns)) @ b"
    unfolding res using d2 by simp
  moreover have "(p + int (length n) + int (length (concat ns))) -
                  int (length ((a @ ?y) @ resolvedDoc (discardedType opType) (concat ns))) =
                 (p + int (length (concat (n # ns)))) -
                  int (length (a @ resolvedDoc (discardedType opType) (concat (n # ns))))"
    unfolding res by simp
  ultimately show ?case by metis
qed

lemma applyMarkRange_steps:
  assumes "applyMarkRange opType r (tr, offset) = Inr (tr', offset')"
  shows "\<exists>new. tr_steps tr' = tr_steps tr @ new"
  using assms
  by (auto simp: applyMarkRange_def removeMark_def deleteRange_def Let_def
           split: sum.splits if_splits)

lemma forEach_steps:
  assumes "forEachMarkRange opType rs (tr, offset) = Inr (tr', offset')"
  shows "\<exists>new. tr_steps tr' = tr_steps tr @ new"
  using assms
proof (induction rs arbitrary: tr offset)
  case Nil
  then show ?case by simp
next
  case (Cons r rs)
  from Cons.prems obtain tr1 off1 where
    a: "applyMarkRange opType r (tr, offset) = Inr (tr1, off1)"
    and f: "forEachMarkRange opType rs (tr1, off1) = Inr (tr', offset')"
    by (auto split: sum.splits)
  from applyMarkRange_steps [OF a] Cons.IH [OF f] show ?case by auto
qed

lemma nodePositions_start_le:
  "(q, n) \<in> set (nodePositions p vis) \<Longrightarrow> q \<le> p + int (length (concat (butlast vis)))"
proof (induction vis arbitrary: p)
  case Nil
  then show ?case by simp
next
  case (Cons a vis)
  show ?case
  proof (cases "(q, n) = (p, a)")
    case True
    then show ?thesis by simp
  next
    case False
    with Cons.prems have m: "(q, n) \<in> set (nodePositions (p + nodeSize a) vis)" by auto
    then have "vis \<noteq> []" by auto
    with Cons.IH [OF m] show ?thesis by (simp add: nodeSize_def)
  qed
qed

lemma nodePositions_end_ge:
  "(q, n) \<in> set (nodePositions p vis) \<Longrightarrow> p + nodeSize (hd vis) \<le> q + nodeSize n"
proof (cases vis)
  case Nil
  assume "(q, n) \<in> set (nodePositions p vis)"
  with Nil show ?thesis by simp
next
  case (Cons a rest)
  assume m: "(q, n) \<in> set (nodePositions p vis)"
  show ?thesis
  proof (cases "(q, n) = (p, a)")
    case True
    with Cons show ?thesis by simp
  next
    case False
    with m Cons have "(q, n) \<in> set (nodePositions (p + nodeSize a) rest)" by auto
    from nodePositions_lower [OF this] Cons show ?thesis by (simp add: nodeSize_def)
  qed
qed

text \<open>
  The nodes that \<^verbatim>\<open>nodesBetween\<close> visits on a range that begins in the first and ends in
  the last of the nodes \<open>vis\<close>.
\<close>

lemma visited_segment:
  assumes nodes: "ns = pre @ vis @ post"
    and cov: "coversNodes f t (int (length (concat pre))) vis"
  shows "filter (\<lambda>(q, n). q < t \<and> f < q + nodeSize n) (nodePositions 0 ns) =
         nodePositions (int (length (concat pre))) vis"
proof -
  let ?P = "\<lambda>(q, n). q < t \<and> f < q + nodeSize n"
  let ?p = "int (length (concat pre))"
  have lo: "?p \<le> f" and lo': "f < ?p + nodeSize (hd vis)"
    and hi': "?p + int (length (concat (butlast vis))) < t" and hi: "t \<le> ?p + int (length (concat vis))"
    using cov by (simp_all add: coversNodes_def)
  have split: "nodePositions 0 ns =
        nodePositions 0 pre @ nodePositions ?p vis @
        nodePositions (?p + int (length (concat vis))) post"
    by (simp add: nodes nodePositions_append)
  have pre: "filter ?P (nodePositions 0 pre) = []"
  proof -
    have "\<forall>v\<in>set (nodePositions 0 pre). \<not> ?P v"
    proof
      fix v assume v: "v \<in> set (nodePositions 0 pre)"
      obtain q n where vq: "v = (q, n)" by (cases v)
      from nodePositions_upper [of q n 0 pre] v vq
      have "q + nodeSize n \<le> ?p" by simp
      with lo vq show "\<not> ?P v" by simp
    qed
    then show ?thesis by (simp only: filter_False)
  qed
  have post: "filter ?P (nodePositions (?p + int (length (concat vis))) post) = []"
  proof -
    have "\<forall>v\<in>set (nodePositions (?p + int (length (concat vis))) post). \<not> ?P v"
    proof
      fix v assume v: "v \<in> set (nodePositions (?p + int (length (concat vis))) post)"
      obtain q n where vq: "v = (q, n)" by (cases v)
      from nodePositions_lower [of q n "?p + int (length (concat vis))" post] v vq
      have "?p + int (length (concat vis)) \<le> q" by simp
      with hi vq show "\<not> ?P v" by simp
    qed
    then show ?thesis by (simp only: filter_False)
  qed
  have mid: "filter ?P (nodePositions ?p vis) = nodePositions ?p vis"
  proof -
    have "\<forall>v\<in>set (nodePositions ?p vis). ?P v"
    proof
      fix v assume v: "v \<in> set (nodePositions ?p vis)"
      obtain q n where vq: "v = (q, n)" by (cases v)
      from nodePositions_start_le [of q n ?p vis] nodePositions_end_ge [of q n ?p vis] v vq
      have "q \<le> ?p + int (length (concat (butlast vis)))" and "?p + nodeSize (hd vis) \<le> q + nodeSize n"
        by simp_all
      with lo' hi' vq show "?P v" by simp
    qed
    then show ?thesis by (simp only: filter_True)
  qed
  show ?thesis
    unfolding split filter_append pre post mid by simp
qed

lemma addressedRange_proper:
  assumes range: "addressedRange opType st = Some (f, t)"
    and some: "f < contentSize (state_doc st)"
  shows "f \<noteq> t"
proof (cases "(opType = TRACK_COMMAND_ACCEPT \<or> opType = TRACK_COMMAND_REJECT) \<and>
              selection_from st = selection_to st")
  case True
  with range have "leftRange st = Some (f, t)" by (simp add: addressedRange_def)
  from leftRange_type [OF this] obtain type where
    "getMarkRange (selection_from st) type (state_doc st) = Some (f, t)" by blast
  from getMarkRange_bounds [OF this] show ?thesis by simp
next
  case False
  show ?thesis
  proof (cases "opType = TRACK_COMMAND_ACCEPT_ALL \<or> opType = TRACK_COMMAND_REJECT_ALL")
    case True
    with range False have "f = 0" and "t = contentSize (state_doc st)"
      by (auto simp: addressedRange_def)
    with some show ?thesis by simp
  next
    case all: False
    with range False have "f = selection_from st" and "t = selection_to st"
      by (auto simp: addressedRange_def)
    moreover from False all have "selection_from st \<noteq> selection_to st"
      by (cases opType) simp_all
    ultimately show ?thesis by simp
  qed
qed

lemma applyMarkRange_meta:
  assumes "applyMarkRange opType r (tr, offset) = Inr (tr', offset')"
  shows "tr_meta tr' = tr_meta tr \<and> tr_selection tr' = tr_selection tr"
  using assms
  by (auto simp: applyMarkRange_def removeMark_def deleteRange_def Let_def
           split: sum.splits if_splits)

lemma forEach_meta:
  assumes "forEachMarkRange opType rs (tr, offset) = Inr (tr', offset')"
  shows "tr_meta tr' = tr_meta tr \<and> tr_selection tr' = tr_selection tr"
  using assms
proof (induction rs arbitrary: tr offset)
  case Nil
  then show ?case by simp
next
  case (Cons r rs)
  from Cons.prems obtain tr1 off1 where
    a: "applyMarkRange opType r (tr, offset) = Inr (tr1, off1)"
    and f: "forEachMarkRange opType rs (tr1, off1) = Inr (tr', offset')"
    by (auto split: sum.splits)
  from applyMarkRange_meta [OF a] Cons.IH [OF f] show ?case by simp
qed

text \<open>
  One pass of the loop body at a running offset, with the steps it adds: the strip of a
  node with one track mark, and the strip followed by the deletion of a node with both.
\<close>

lemma strip_pass_at:
  assumes keep: "keepsContent opType m"
    and doc: "tr_doc tr = a @ x @ b"
    and fr: "p - off = int (length a)"
    and to: "q - off = int (length a) + int (length x)"
  shows "applyMarkRange opType (MarkRange p q m) (tr, off) =
         Inr (let tr1 = (if map (withoutMarkType MARK_INSERTION) x = x then tr
                         else tr\<lparr>tr_doc := a @ map (withoutMarkType MARK_INSERTION) x @ b,
                                 tr_steps := tr_steps tr @
                                   [(RemoveMarkStep (int (length a)) (int (length a) + int (length x))
                                       MARK_INSERTION, a @ x @ b)]\<rparr>)
              in if map stripTrack x = map (withoutMarkType MARK_INSERTION) x then tr1
                 else tr1\<lparr>tr_doc := a @ map stripTrack x @ b,
                          tr_steps := tr_steps tr1 @
                            [(RemoveMarkStep (int (length a)) (int (length a) + int (length x))
                                MARK_DELETION, a @ map (withoutMarkType MARK_INSERTION) x @ b)]\<rparr>,
              off)"
proof -
  have "applyMarkRange opType (MarkRange p q m) (tr, off) =
        map_sum id (\<lambda>s. (fst s, off))
          (applyMarkRange opType (MarkRange (int (length a)) (int (length a) + int (length x)) m) (tr, 0))"
    using keep by (auto simp: applyMarkRange_def keepsContent_def fr to split: sum.splits)
  then show ?thesis
    unfolding strip_pass_exact [OF keep doc] by (simp add: Let_def)
qed

lemma delete_pass_at:
  assumes del: "\<not> keepsContent opType m"
    and doc: "tr_doc tr = a @ x @ b" and ne: "x \<noteq> []"
    and fr: "p - off = int (length a)"
    and to: "q - off = int (length a) + int (length x)"
  shows "applyMarkRange opType (MarkRange p q m) (tr, off) =
         Inr (tr\<lparr>tr_doc := a @ b,
                 tr_steps := tr_steps tr @
                   [(ReplaceStep (int (length a)) (int (length a) + int (length x)) [], a @ x @ b)]\<rparr>,
              off + (q - p))"
  using del deleteRange_exact [OF doc ne]
  by (auto simp: applyMarkRange_def keepsContent_def fr to split: sum.splits)

lemma strip_single_at:
  assumes kept: "keepsContent opType kept"
    and tms: "filter isTrackMark (nodeMarks x) = [kept]"
    and uni: "\<forall>ch\<in>set x. snd ch = nodeMarks x" and xne: "x \<noteq> []"
    and doc: "tr_doc tr = a @ x @ b"
    and fr: "p - off = int (length a)"
    and to: "q - off = int (length a) + int (length x)"
  shows "applyMarkRange opType (MarkRange p q kept) (tr, off) =
         Inr (tr\<lparr>tr_doc := a @ map stripTrack x @ b,
                 tr_steps := tr_steps tr @
                   [(RemoveMarkStep (int (length a)) (int (length a) + int (length x))
                       (mark_name kept), a @ x @ b)]\<rparr>,
              off)"
proof -
  have kin: "kept \<in> set (nodeMarks x)"
  proof -
    have "kept \<in> set (filter isTrackMark (nodeMarks x))" by (simp add: tms)
    then show ?thesis by simp
  qed
  have only: "\<And>m. m \<in> set (nodeMarks x) \<Longrightarrow> isTrackMark m \<Longrightarrow> m = kept"
  proof -
    fix m assume "m \<in> set (nodeMarks x)" and "isTrackMark m"
    then have "m \<in> set (filter isTrackMark (nodeMarks x))" by simp
    then show "m = kept" by (simp add: tms)
  qed
  have has: "\<forall>ch\<in>set x. hasMarkType (mark_name kept) ch"
    using node_has_type [OF uni kin] .
  from kept have "opType = TRACK_COMMAND_ACCEPT \<and> mark_name kept = MARK_INSERTION \<or>
                  opType = TRACK_COMMAND_REJECT \<and> mark_name kept = MARK_DELETION"
    by (simp add: keepsContent_def)
  then show ?thesis
  proof
    assume k: "opType = TRACK_COMMAND_ACCEPT \<and> mark_name kept = MARK_INSERTION"
    have nodel: "\<forall>ch\<in>set x. \<not> hasMarkType MARK_DELETION ch"
    proof (rule node_lacks_type [OF uni], rule ballI)
      fix m assume m: "m \<in> set (nodeMarks x)"
      show "mark_name m \<noteq> MARK_DELETION"
      proof
        assume d: "mark_name m = MARK_DELETION"
        then have "isTrackMark m" by (simp add: isTrackMark_def)
        from only [OF m this] d k show False using track_types_differ by simp
      qed
    qed
    have ch1: "map (withoutMarkType MARK_INSERTION) x \<noteq> x"
      using map_without_changes [OF xne] has k by simp
    have "\<forall>ch\<in>set (map (withoutMarkType MARK_INSERTION) x). \<not> hasMarkType MARK_DELETION ch"
      using nodel by (simp add: hasMarkType_withoutMarkType)
    from map_without_same [OF this]
    have same: "map stripTrack x = map (withoutMarkType MARK_INSERTION) x"
      by (simp only: map_stripTrack)
    show ?thesis
      unfolding strip_pass_at [OF kept doc fr to]
      using ch1 same k by (simp add: Let_def)
  next
    assume k: "opType = TRACK_COMMAND_REJECT \<and> mark_name kept = MARK_DELETION"
    have noins: "\<forall>ch\<in>set x. \<not> hasMarkType MARK_INSERTION ch"
    proof (rule node_lacks_type [OF uni], rule ballI)
      fix m assume m: "m \<in> set (nodeMarks x)"
      show "mark_name m \<noteq> MARK_INSERTION"
      proof
        assume d: "mark_name m = MARK_INSERTION"
        then have "isTrackMark m" by (simp add: isTrackMark_def)
        from only [OF m this] d k show False using track_types_differ by simp
      qed
    qed
    have same1: "map (withoutMarkType MARK_INSERTION) x = x"
      using map_without_same [OF noins] .
    have neq: "map (withoutMarkType MARK_DELETION) x \<noteq> x"
      using map_without_changes [OF xne] has k by simp
    have "map (withoutMarkType MARK_DELETION) (map (withoutMarkType MARK_INSERTION) x) = map stripTrack x"
      by (rule map_stripTrack)
    then have "map (withoutMarkType MARK_DELETION) x = map stripTrack x"
      unfolding same1 .
    with neq have ch2: "map stripTrack x \<noteq> x"
      by simp
    show ?thesis
      unfolding strip_pass_at [OF kept doc fr to]
      using ch2 same1 k by (simp add: Let_def)
  qed
qed

lemma strip_double_at:
  assumes op: "opType = TRACK_COMMAND_ACCEPT \<or> opType = TRACK_COMMAND_REJECT"
    and kept: "keepsContent opType kept"
    and disc: "\<not> keepsContent opType discarded"
    and tms: "filter isTrackMark (nodeMarks x) = [kept, discarded]"
    and uni: "\<forall>ch\<in>set x. snd ch = nodeMarks x" and xne: "x \<noteq> []"
    and doc: "tr_doc tr = a @ x @ b"
    and fr: "p - off = int (length a)"
    and to: "q - off = int (length a) + int (length x)"
  shows "forEachMarkRange opType [MarkRange p q kept, MarkRange p q discarded] (tr, off) =
         Inr (tr\<lparr>tr_doc := a @ b,
                 tr_steps := tr_steps tr @
                   [(RemoveMarkStep (int (length a)) (int (length a) + int (length x)) MARK_INSERTION,
                     a @ x @ b),
                    (RemoveMarkStep (int (length a)) (int (length a) + int (length x)) MARK_DELETION,
                     a @ map (withoutMarkType MARK_INSERTION) x @ b),
                    (ReplaceStep (int (length a)) (int (length a) + int (length x)) [],
                     a @ map stripTrack x @ b)]\<rparr>,
              off + (q - p))"
proof -
  let ?p = "int (length a)"
  let ?q = "int (length a) + int (length x)"
  let ?x1 = "map (withoutMarkType MARK_INSERTION) x"
  have "kept \<in> set (filter isTrackMark (nodeMarks x))"
    and "discarded \<in> set (filter isTrackMark (nodeMarks x))"
    by (simp_all add: tms)
  then have kin: "kept \<in> set (nodeMarks x)" and din: "discarded \<in> set (nodeMarks x)"
    and dtrack: "isTrackMark discarded"
    by simp_all
  have names: "{mark_name kept, mark_name discarded} = {MARK_INSERTION, MARK_DELETION}"
    using op kept disc dtrack by (auto simp: keepsContent_def isTrackMark_def)
  have ins: "\<forall>ch\<in>set x. hasMarkType MARK_INSERTION ch"
    and del: "\<forall>ch\<in>set x. hasMarkType MARK_DELETION ch"
    using node_has_type [OF uni kin] node_has_type [OF uni din] names
    by (auto simp: doubleton_eq_iff)
  have ch1: "?x1 \<noteq> x"
    using map_without_changes [OF xne ins] .
  have "\<forall>ch\<in>set ?x1. hasMarkType MARK_DELETION ch"
    using del track_types_differ by (auto simp: hasMarkType_withoutMarkType)
  moreover have "?x1 \<noteq> []" using xne by simp
  ultimately have neq: "map (withoutMarkType MARK_DELETION) ?x1 \<noteq> ?x1"
    by (intro map_without_changes)
  have e: "map (withoutMarkType MARK_DELETION) ?x1 = map stripTrack x"
    by (rule map_stripTrack)
  have ch2: "map stripTrack x \<noteq> ?x1"
    using neq unfolding e .
  let ?tr2 = "tr\<lparr>tr_doc := a @ map stripTrack x @ b,
                 tr_steps := tr_steps tr @
                   [(RemoveMarkStep ?p ?q MARK_INSERTION, a @ x @ b),
                    (RemoveMarkStep ?p ?q MARK_DELETION, a @ ?x1 @ b)]\<rparr>"
  have p1: "applyMarkRange opType (MarkRange p q kept) (tr, off) = Inr (?tr2, off)"
    unfolding strip_pass_at [OF kept doc fr to]
    using ch1 ch2 by (simp add: Let_def)
  have d2: "tr_doc ?tr2 = a @ map stripTrack x @ b" by simp
  have sne: "map stripTrack x \<noteq> []" using xne by simp
  have to2: "q - off = int (length a) + int (length (map stripTrack x))" using to by simp
  have p2: "applyMarkRange opType (MarkRange p q discarded) (?tr2, off) =
            Inr (?tr2\<lparr>tr_doc := a @ b,
                      tr_steps := tr_steps ?tr2 @ [(ReplaceStep ?p ?q [], a @ map stripTrack x @ b)]\<rparr>,
                 off + (q - p))"
    using delete_pass_at [OF disc d2 sne fr to2] by simp
  show ?thesis
    using p1 p2 by simp
qed

lemma hd_length_le: "vis \<noteq> [] \<Longrightarrow> length (hd vis) \<le> length (concat vis)"
  by (cases vis) simp_all

lemma scope_of_nodes:
  assumes nodes: "content (state_doc st) = content a @ vis @ content b"
    and range: "addressedRange opType0 st = Some (f, t)"
    and cov: "coversNodes f t (int (length a)) vis"
  shows "scopeMarkRanges opType0 st =
         Inr (concat (map nodeRanges (nodePositions (int (length a)) vis)), normalOp opType0)"
proof -
  let ?d = "state_doc st"
  have d: "?d = a @ concat vis @ b"
    using arg_cong [where f = concat, OF nodes] by (simp add: content_concat)
  have vne: "vis \<noteq> []" and lo': "f < int (length a) + nodeSize (hd vis)"
    and hi: "t \<le> int (length a) + int (length (concat vis))"
    using cov by (simp_all add: coversNodes_def)
  have size: "t \<le> contentSize ?d"
    using hi by (simp add: d contentSize_def)
  have "f < contentSize ?d"
    using lo' hd_length_le [OF vne] by (simp add: d contentSize_def nodeSize_def)
  from addressedRange_proper [OF range this] have ne: "f \<noteq> t" .
  have cov': "coversNodes f t (int (length (concat (content a)))) vis"
    using cov by (simp add: content_concat)
  have "getMarksBetween f t ?d = Inr (concat (map nodeRanges (nodePositions (int (length a)) vis)))"
    unfolding getMarksBetween_nodes [OF ne size] visited_segment [OF nodes cov']
    by (simp add: content_concat)
  then show ?thesis
    unfolding scope_addressed range by simp
qed

lemma ranges_of_nodes:
  "filter isTrackRange (concat (map nodeRanges (nodePositions p (ns1 @ [x] @ ns2)))) =
   filter isTrackRange (concat (map nodeRanges (nodePositions p ns1))) @
   map (MarkRange (p + int (length (concat ns1))) (p + int (length (concat ns1)) + int (length x)))
     (filter isTrackMark (nodeMarks x)) @
   filter isTrackRange (concat (map nodeRanges
     (nodePositions (p + int (length (concat ns1)) + int (length x)) ns2)))"
  by (simp add: nodePositions_append filter_track_nodeRanges nodeSize_def)

lemma loop_segment:
  assumes op: "opType = TRACK_COMMAND_ACCEPT \<or> opType = TRACK_COMMAND_REJECT"
    and ord: "\<forall>n\<in>set (content s). stripsFirst opType n"
    and doc: "tr_doc tr = a @ s @ b"
    and off: "off = p - int (length a)"
  shows "\<exists>new. forEachMarkRange opType
                  (filter isTrackRange (concat (map nodeRanges (nodePositions p (content s)))))
                  (tr, off) =
               Inr (tr\<lparr>tr_doc := a @ resolvedDoc (discardedType opType) s @ b,
                       tr_steps := tr_steps tr @ new\<rparr>,
                    (p + int (length s)) - int (length (a @ resolvedDoc (discardedType opType) s)))"
proof -
  have uni: "\<forall>n\<in>set (content s). \<forall>ch\<in>set n. snd ch = nodeMarks n"
    using content_uniform by blast
  have doc': "tr_doc tr = a @ concat (content s) @ b"
    by (simp add: doc content_concat)
  from nodes_loop_ord [OF op uni ord doc', of p]
  obtain tr' where f: "forEachMarkRange opType
        (filter isTrackRange (concat (map nodeRanges (nodePositions p (content s)))))
        (tr, off) =
        Inr (tr', (p + int (length s)) - int (length (a @ resolvedDoc (discardedType opType) s)))"
    and d: "tr_doc tr' = a @ resolvedDoc (discardedType opType) s @ b"
    unfolding off by (auto simp: content_concat)
  from forEach_steps [OF f] obtain new where s: "tr_steps tr' = tr_steps tr @ new" by blast
  from forEach_meta [OF f] have m: "tr_meta tr' = tr_meta tr" "tr_selection tr' = tr_selection tr"
    by simp_all
  have "tr' = tr\<lparr>tr_doc := a @ resolvedDoc (discardedType opType) s @ b,
                  tr_steps := tr_steps tr @ new\<rparr>"
    using d s m by (cases tr, cases tr') simp
  with f show ?thesis by blast
qed

lemma call_on_nodes:
  assumes nodes: "content (state_doc st) = content a @ content s1 @ [x] @ content s2 @ content b"
    and range: "addressedRange opType0 st = Some (f, t)"
    and cov: "coversNodes f t (int (length a)) (content s1 @ [x] @ content s2)"
    and some: "filter isTrackMark (nodeMarks x) \<noteq> []"
  shows "changeTrack opType0 st (state_tr st) =
         (case forEachMarkRange (normalOp opType0)
                 (filter isTrackRange (concat (map nodeRanges
                    (nodePositions (int (length a)) (content s1)))) @
                  map (MarkRange (int (length a) + int (length s1))
                         (int (length a) + int (length s1) + int (length x)))
                    (filter isTrackMark (nodeMarks x)) @
                  filter isTrackRange (concat (map nodeRanges
                    (nodePositions (int (length a) + int (length s1) + int (length x)) (content s2)))))
                 (state_tr st, 0) of
            Inl e \<Rightarrow> Inl e
          | Inr (currentTr, offset) \<Rightarrow>
              Inr (True,
                   if tr_steps currentTr \<noteq> []
                   then setMeta ''trackManualChanged'' (MetaBool True) currentTr
                   else currentTr))"
proof -
  define gathered where
    "gathered = concat (map nodeRanges (nodePositions (int (length a)) (content s1 @ [x] @ content s2)))"
  have nodes': "content (state_doc st) = content a @ (content s1 @ [x] @ content s2) @ content b"
    using nodes by simp
  have sc: "scopeMarkRanges opType0 st = Inr (gathered, normalOp opType0)"
    unfolding gathered_def by (rule scope_of_nodes [OF nodes' range cov])
  have ct: "changeTrack opType0 st (state_tr st) =
        (if filter isTrackRange gathered = [] then Inr (False, state_tr st)
         else (case forEachMarkRange (normalOp opType0) (filter isTrackRange gathered) (state_tr st, 0) of
                 Inl e \<Rightarrow> Inl e
               | Inr (currentTr, offset) \<Rightarrow>
                   Inr (True,
                        if tr_steps currentTr \<noteq> []
                        then setMeta ''trackManualChanged'' (MetaBool True) currentTr
                        else currentTr)))"
    by (simp add: changeTrack_def sc Let_def)
  have rs: "filter isTrackRange gathered =
        filter isTrackRange (concat (map nodeRanges (nodePositions (int (length a)) (content s1)))) @
        map (MarkRange (int (length a) + int (length s1))
               (int (length a) + int (length s1) + int (length x)))
          (filter isTrackMark (nodeMarks x)) @
        filter isTrackRange (concat (map nodeRanges
          (nodePositions (int (length a) + int (length s1) + int (length x)) (content s2))))"
    unfolding gathered_def by (simp only: ranges_of_nodes content_concat)
  show ?thesis
    unfolding ct rs using some by simp
qed

lemma stripped_single:
  assumes nodes: "content (state_doc st) = content a @ content s1 @ [x] @ content s2 @ content b"
    and range: "addressedRange opType0 st = Some (f, t)"
    and cov: "coversNodes f t (int (length a)) (content s1 @ [x] @ content s2)"
    and ord: "\<forall>n\<in>set (content s1 @ content s2). stripsFirst (normalOp opType0) n"
    and kept: "keepsContent (normalOp opType0) kept"
    and tms: "filter isTrackMark (nodeMarks x) = [kept]"
  shows "\<exists>before after.
           changeTrack opType0 st (state_tr st) =
             Inr (True,
               \<lparr>tr_doc = a @ resolvedDoc (discardedType (normalOp opType0)) s1 @ map stripTrack x @
                          resolvedDoc (discardedType (normalOp opType0)) s2 @ b,
                tr_steps = before @
                  [(RemoveMarkStep
                      (int (length (a @ resolvedDoc (discardedType (normalOp opType0)) s1)))
                      (int (length (a @ resolvedDoc (discardedType (normalOp opType0)) s1)) +
                         int (length x))
                      (mark_name kept),
                    a @ resolvedDoc (discardedType (normalOp opType0)) s1 @ x @ s2 @ b)] @ after,
                tr_meta = [(''trackManualChanged'', MetaBool True)],
                tr_selection = None\<rparr>)"
proof -
  define op where "op = normalOp opType0"
  define r1 where "r1 = resolvedDoc (discardedType op) s1"
  define r2 where "r2 = resolvedDoc (discardedType op) s2"
  define p where "p = int (length a) + int (length s1)"
  have opc: "op = TRACK_COMMAND_ACCEPT \<or> op = TRACK_COMMAND_REJECT"
    unfolding op_def by (rule normalOp_cases)
  have ord1: "\<forall>n\<in>set (content s1). stripsFirst op n" and ord2: "\<forall>n\<in>set (content s2). stripsFirst op n"
    using ord by (simp_all add: op_def)
  have keptc: "keepsContent op kept" using kept by (simp add: op_def)
  have xin: "x \<in> set (content (state_doc st))" using nodes by simp
  have xne: "x \<noteq> []" using content_nonempty [OF xin] .
  have uni: "\<forall>ch\<in>set x. snd ch = nodeMarks x" using content_uniform [OF xin] by blast
  have d: "state_doc st = a @ s1 @ x @ s2 @ b"
    using arg_cong [where f = concat, OF nodes] by (simp add: content_concat)
  have doc0: "tr_doc (state_tr st) = a @ s1 @ (x @ s2 @ b)"
    by (simp add: state_tr_def d)
  from loop_segment [OF opc ord1 doc0, of 0 "int (length a)"]
  obtain before where f1: "forEachMarkRange op
        (filter isTrackRange (concat (map nodeRanges (nodePositions (int (length a)) (content s1)))))
        (state_tr st, 0) =
        Inr ((state_tr st)\<lparr>tr_doc := a @ r1 @ (x @ s2 @ b), tr_steps := tr_steps (state_tr st) @ before\<rparr>,
             p - int (length (a @ r1)))"
    unfolding r1_def p_def by auto
  define tr1 where "tr1 = (state_tr st)\<lparr>tr_doc := a @ r1 @ (x @ s2 @ b),
                                          tr_steps := tr_steps (state_tr st) @ before\<rparr>"
  define off1 where "off1 = p - int (length (a @ r1))"
  have d1: "tr_doc tr1 = (a @ r1) @ x @ (s2 @ b)" by (simp add: tr1_def)
  have fr: "p - off1 = int (length (a @ r1))" by (simp add: off1_def)
  have to: "(p + int (length x)) - off1 = int (length (a @ r1)) + int (length x)"
    by (simp add: off1_def)
  define tr2 where "tr2 = tr1\<lparr>tr_doc := (a @ r1) @ map stripTrack x @ (s2 @ b),
                               tr_steps := tr_steps tr1 @
                                 [(RemoveMarkStep (int (length (a @ r1)))
                                     (int (length (a @ r1)) + int (length x)) (mark_name kept),
                                   (a @ r1) @ x @ (s2 @ b))]\<rparr>"
  have f2: "applyMarkRange op (MarkRange p (p + int (length x)) kept) (tr1, off1) = Inr (tr2, off1)"
    unfolding tr2_def by (rule strip_single_at [OF keptc tms uni xne d1 fr to])
  have d2: "tr_doc tr2 = (a @ r1 @ map stripTrack x) @ s2 @ b" by (simp add: tr2_def)
  have off2: "off1 = (p + int (length x)) - int (length (a @ r1 @ map stripTrack x))"
    by (simp add: off1_def)
  from loop_segment [OF opc ord2 d2 off2]
  obtain after where f3: "forEachMarkRange op
        (filter isTrackRange (concat (map nodeRanges (nodePositions (p + int (length x)) (content s2)))))
        (tr2, off1) =
        Inr (tr2\<lparr>tr_doc := (a @ r1 @ map stripTrack x) @ r2 @ b, tr_steps := tr_steps tr2 @ after\<rparr>,
             (p + int (length x) + int (length s2)) -
               int (length ((a @ r1 @ map stripTrack x) @ r2)))"
    unfolding r2_def by auto
  have some: "filter isTrackMark (nodeMarks x) \<noteq> []" by (simp add: tms)
  have loop: "forEachMarkRange op
        (filter isTrackRange (concat (map nodeRanges (nodePositions (int (length a)) (content s1)))) @
         map (MarkRange p (p + int (length x))) [kept] @
         filter isTrackRange (concat (map nodeRanges (nodePositions (p + int (length x)) (content s2)))))
        (state_tr st, 0) =
        Inr (tr2\<lparr>tr_doc := (a @ r1 @ map stripTrack x) @ r2 @ b, tr_steps := tr_steps tr2 @ after\<rparr>,
             (p + int (length x) + int (length s2)) -
               int (length ((a @ r1 @ map stripTrack x) @ r2)))"
    unfolding forEachMarkRange_append f1 [folded tr1_def off1_def]
    using f2 f3 by simp
  have "changeTrack opType0 st (state_tr st) =
        Inr (True,
          \<lparr>tr_doc = a @ r1 @ map stripTrack x @ r2 @ b,
           tr_steps = before @
             [(RemoveMarkStep (int (length (a @ r1))) (int (length (a @ r1)) + int (length x))
                 (mark_name kept), a @ r1 @ x @ s2 @ b)] @ after,
           tr_meta = [(''trackManualChanged'', MetaBool True)],
           tr_selection = None\<rparr>)"
    unfolding call_on_nodes [OF nodes range cov some] tms
      loop [unfolded op_def p_def]
    by (simp add: tr2_def tr1_def setMeta_def state_tr_def)
  then show ?thesis
    unfolding r1_def r2_def op_def by blast
qed

lemma stripped_then_deleted:
  assumes nodes: "content (state_doc st) = content a @ content s1 @ [x] @ content s2 @ content b"
    and range: "addressedRange opType0 st = Some (f, t)"
    and cov: "coversNodes f t (int (length a)) (content s1 @ [x] @ content s2)"
    and ord: "\<forall>n\<in>set (content s1 @ content s2). stripsFirst (normalOp opType0) n"
    and kept: "keepsContent (normalOp opType0) kept"
    and disc: "\<not> keepsContent (normalOp opType0) discarded"
    and tms: "filter isTrackMark (nodeMarks x) = [kept, discarded]"
  shows "\<exists>before after.
           changeTrack opType0 st (state_tr st) =
             Inr (True,
               \<lparr>tr_doc = a @ resolvedDoc (discardedType (normalOp opType0)) s1 @
                          resolvedDoc (discardedType (normalOp opType0)) s2 @ b,
                tr_steps = before @
                  [(RemoveMarkStep
                      (int (length (a @ resolvedDoc (discardedType (normalOp opType0)) s1)))
                      (int (length (a @ resolvedDoc (discardedType (normalOp opType0)) s1)) +
                         int (length x))
                      MARK_INSERTION,
                    a @ resolvedDoc (discardedType (normalOp opType0)) s1 @ x @ s2 @ b),
                   (RemoveMarkStep
                      (int (length (a @ resolvedDoc (discardedType (normalOp opType0)) s1)))
                      (int (length (a @ resolvedDoc (discardedType (normalOp opType0)) s1)) +
                         int (length x))
                      MARK_DELETION,
                    a @ resolvedDoc (discardedType (normalOp opType0)) s1 @
                      map (withoutMarkType MARK_INSERTION) x @ s2 @ b),
                   (ReplaceStep
                      (int (length (a @ resolvedDoc (discardedType (normalOp opType0)) s1)))
                      (int (length (a @ resolvedDoc (discardedType (normalOp opType0)) s1)) +
                         int (length x))
                      [],
                    a @ resolvedDoc (discardedType (normalOp opType0)) s1 @
                      map stripTrack x @ s2 @ b)] @ after,
                tr_meta = [(''trackManualChanged'', MetaBool True)],
                tr_selection = None\<rparr>)"
proof -
  define op where "op = normalOp opType0"
  define r1 where "r1 = resolvedDoc (discardedType op) s1"
  define r2 where "r2 = resolvedDoc (discardedType op) s2"
  define p where "p = int (length a) + int (length s1)"
  have opc: "op = TRACK_COMMAND_ACCEPT \<or> op = TRACK_COMMAND_REJECT"
    unfolding op_def by (rule normalOp_cases)
  have ord1: "\<forall>n\<in>set (content s1). stripsFirst op n" and ord2: "\<forall>n\<in>set (content s2). stripsFirst op n"
    using ord by (simp_all add: op_def)
  have keptc: "keepsContent op kept" and discc: "\<not> keepsContent op discarded"
    using kept disc by (simp_all add: op_def)
  have xin: "x \<in> set (content (state_doc st))" using nodes by simp
  have xne: "x \<noteq> []" using content_nonempty [OF xin] .
  have uni: "\<forall>ch\<in>set x. snd ch = nodeMarks x" using content_uniform [OF xin] by blast
  have d: "state_doc st = a @ s1 @ x @ s2 @ b"
    using arg_cong [where f = concat, OF nodes] by (simp add: content_concat)
  have doc0: "tr_doc (state_tr st) = a @ s1 @ (x @ s2 @ b)"
    by (simp add: state_tr_def d)
  from loop_segment [OF opc ord1 doc0, of 0 "int (length a)"]
  obtain before where f1: "forEachMarkRange op
        (filter isTrackRange (concat (map nodeRanges (nodePositions (int (length a)) (content s1)))))
        (state_tr st, 0) =
        Inr ((state_tr st)\<lparr>tr_doc := a @ r1 @ (x @ s2 @ b), tr_steps := tr_steps (state_tr st) @ before\<rparr>,
             p - int (length (a @ r1)))"
    unfolding r1_def p_def by auto
  define tr1 where "tr1 = (state_tr st)\<lparr>tr_doc := a @ r1 @ (x @ s2 @ b),
                                          tr_steps := tr_steps (state_tr st) @ before\<rparr>"
  define off1 where "off1 = p - int (length (a @ r1))"
  have d1: "tr_doc tr1 = (a @ r1) @ x @ (s2 @ b)" by (simp add: tr1_def)
  have fr: "p - off1 = int (length (a @ r1))" by (simp add: off1_def)
  have to: "(p + int (length x)) - off1 = int (length (a @ r1)) + int (length x)"
    by (simp add: off1_def)
  define tr2 where "tr2 = tr1\<lparr>tr_doc := (a @ r1) @ (s2 @ b),
      tr_steps := tr_steps tr1 @
        [(RemoveMarkStep (int (length (a @ r1))) (int (length (a @ r1)) + int (length x)) MARK_INSERTION,
          (a @ r1) @ x @ (s2 @ b)),
         (RemoveMarkStep (int (length (a @ r1))) (int (length (a @ r1)) + int (length x)) MARK_DELETION,
          (a @ r1) @ map (withoutMarkType MARK_INSERTION) x @ (s2 @ b)),
         (ReplaceStep (int (length (a @ r1))) (int (length (a @ r1)) + int (length x)) [],
          (a @ r1) @ map stripTrack x @ (s2 @ b))]\<rparr>"
  have f2: "forEachMarkRange op [MarkRange p (p + int (length x)) kept,
                                 MarkRange p (p + int (length x)) discarded] (tr1, off1) =
            Inr (tr2, off1 + (p + int (length x) - p))"
    unfolding tr2_def by (rule strip_double_at [OF opc keptc discc tms uni xne d1 fr to])
  have d2: "tr_doc tr2 = (a @ r1) @ s2 @ b" by (simp add: tr2_def)
  have off2: "off1 + (p + int (length x) - p) = (p + int (length x)) - int (length (a @ r1))"
    by (simp add: off1_def)
  from loop_segment [OF opc ord2 d2 off2]
  obtain after where f3: "forEachMarkRange op
        (filter isTrackRange (concat (map nodeRanges (nodePositions (p + int (length x)) (content s2)))))
        (tr2, off1 + (p + int (length x) - p)) =
        Inr (tr2\<lparr>tr_doc := (a @ r1) @ r2 @ b, tr_steps := tr_steps tr2 @ after\<rparr>,
             (p + int (length x) + int (length s2)) - int (length ((a @ r1) @ r2)))"
    unfolding r2_def by auto
  have some: "filter isTrackMark (nodeMarks x) \<noteq> []" by (simp add: tms)
  have loop: "forEachMarkRange op
        (filter isTrackRange (concat (map nodeRanges (nodePositions (int (length a)) (content s1)))) @
         map (MarkRange p (p + int (length x))) [kept, discarded] @
         filter isTrackRange (concat (map nodeRanges (nodePositions (p + int (length x)) (content s2)))))
        (state_tr st, 0) =
        Inr (tr2\<lparr>tr_doc := (a @ r1) @ r2 @ b, tr_steps := tr_steps tr2 @ after\<rparr>,
             (p + int (length x) + int (length s2)) - int (length ((a @ r1) @ r2)))"
    unfolding forEachMarkRange_append f1 [folded tr1_def off1_def]
    using f2 f3 by simp
  have "changeTrack opType0 st (state_tr st) =
        Inr (True,
          \<lparr>tr_doc = a @ r1 @ r2 @ b,
           tr_steps = before @
             [(RemoveMarkStep (int (length (a @ r1))) (int (length (a @ r1)) + int (length x))
                 MARK_INSERTION, a @ r1 @ x @ s2 @ b),
              (RemoveMarkStep (int (length (a @ r1))) (int (length (a @ r1)) + int (length x))
                 MARK_DELETION, a @ r1 @ map (withoutMarkType MARK_INSERTION) x @ s2 @ b),
              (ReplaceStep (int (length (a @ r1))) (int (length (a @ r1)) + int (length x)) [],
                 a @ r1 @ map stripTrack x @ s2 @ b)] @ after,
           tr_meta = [(''trackManualChanged'', MetaBool True)],
           tr_selection = None\<rparr>)"
    unfolding call_on_nodes [OF nodes range cov some] tms
      loop [unfolded op_def p_def]
    by (simp add: tr2_def tr1_def setMeta_def state_tr_def)
  then show ?thesis
    unfolding r1_def r2_def op_def by blast
qed

text \<open>
  The policy on any scope. Let the addressed range (the document, the selection, or the
  range found at the cursor) begin in the first and end in the last node of the stretch
  \<open>s\<close> of the document, between \<open>a\<close> and \<open>b\<close>, and let the marks that keep come first
  in the nodes of \<open>s\<close>. Then the call leaves \<open>a\<close> and \<open>b\<close> as they are, drops from \<open>s\<close>
  what is under a mark of the discarded kind and strips the track marks from the rest.
\<close>

lemma changeTrack_scope:
  assumes op: "opType = normalOp opType0"
    and nodes: "content (state_doc st) = content a @ content s @ content b"
    and range: "addressedRange opType0 st = Some (f, t)"
    and cov: "coversNodes f t (int (length a)) (content s)"
    and ord: "\<forall>n\<in>set (content s). stripsFirst opType n"
  shows "\<exists>changed tr'. changeTrack opType0 st (state_tr st) = Inr (changed, tr') \<and>
           tr_doc tr' = a @ resolvedDoc (discardedType opType) s @ b"
proof -
  define gathered where
    "gathered = filter isTrackRange (concat (map nodeRanges (nodePositions (int (length a)) (content s))))"
  have opc: "opType = TRACK_COMMAND_ACCEPT \<or> opType = TRACK_COMMAND_REJECT"
    unfolding op by (rule normalOp_cases)
  have sc: "scopeMarkRanges opType0 st =
            Inr (concat (map nodeRanges (nodePositions (int (length a)) (content s))), opType)"
    unfolding op by (rule scope_of_nodes [OF nodes range cov])
  have d: "state_doc st = a @ s @ b"
    using arg_cong [where f = concat, OF nodes] by (simp add: content_concat)
  have doc0: "tr_doc (state_tr st) = a @ s @ b" by (simp add: state_tr_def d)
  from loop_segment [OF opc ord doc0, of 0 "int (length a)"]
  obtain new where f: "forEachMarkRange opType gathered (state_tr st, 0) =
        Inr ((state_tr st)\<lparr>tr_doc := a @ resolvedDoc (discardedType opType) s @ b,
                            tr_steps := tr_steps (state_tr st) @ new\<rparr>,
             (int (length a) + int (length s)) -
               int (length (a @ resolvedDoc (discardedType opType) s)))"
    unfolding gathered_def by auto
  have ct: "changeTrack opType0 st (state_tr st) =
        (if gathered = [] then Inr (False, state_tr st)
         else (case forEachMarkRange opType gathered (state_tr st, 0) of
                 Inl e \<Rightarrow> Inl e
               | Inr (currentTr, offset) \<Rightarrow>
                   Inr (True,
                        if tr_steps currentTr \<noteq> []
                        then setMeta ''trackManualChanged'' (MetaBool True) currentTr
                        else currentTr)))"
    by (simp add: changeTrack_def sc Let_def gathered_def)
  show ?thesis
  proof (cases "gathered = []")
    case True
    with f have "tr_doc (state_tr st) = a @ resolvedDoc (discardedType opType) s @ b"
      by (simp add: state_tr_def)
    with True ct show ?thesis by auto
  next
    case False
    with ct f show ?thesis by (auto simp: setMeta_def)
  qed
qed

text \<open>
  C10 (as stated): a range that carries both kinds of track mark leaves the operation
  without either, so \<open>ab\<close> under an insertion and a deletion mark would come out as
  plain \<open>ab\<close>. With \<open>ab\<close> selected, accept strips both marks from it and then
  deletes it, and reject deletes it without stripping anything: either way the document
  is empty afterwards.
\<close>

theorem doubly_marked_range_is_deleted:
  "changeTrack TRACK_COMMAND_ACCEPT bothMarksSelected (state_tr bothMarksSelected) =
     Inr (True,
       \<lparr>tr_doc = [],
        tr_steps = [(RemoveMarkStep 0 2 MARK_INSERTION, bothMarksAB),
                    (RemoveMarkStep 0 2 MARK_DELETION, markedText [deletionByAlice] ''ab''),
                    (ReplaceStep 0 2 [], plainText ''ab'')],
        tr_meta = [(''trackManualChanged'', MetaBool True)],
        tr_selection = None\<rparr>) \<and>
   changeTrack TRACK_COMMAND_REJECT bothMarksSelected (state_tr bothMarksSelected) =
     Inr (True,
       \<lparr>tr_doc = [],
        tr_steps = [(ReplaceStep 0 2 [], bothMarksAB)],
        tr_meta = [(''trackManualChanged'', MetaBool True)],
        tr_selection = None\<rparr>) \<and>
   map stripTrack (state_doc bothMarksSelected) = plainText ''ab'' \<and>
   plainText ''ab'' \<noteq> []"
  by code_simp

text \<open>
  C10 (amended): take any call of \<^verbatim>\<open>changeTrack\<close>, on the whole document, on a selection
  or at the cursor, whose addressed range begins in the first and ends in the last of the
  text nodes \<open>content s1 @ [x] @ content s2\<close>, these lying between \<open>a\<close> and \<open>b\<close>. When
  the call strips the node \<open>x\<close> (its first track mark is one that the operation
  keeps), it removes both track mark types from the range of \<open>x\<close>, at the position to
  which the deletions before it have moved that range, in the same pass. Where that mark
  is the only track mark of \<open>x\<close>, the transaction holds the one removal that changes
  \<open>x\<close>, and \<open>x\<close> stays in the document without track marks. Where \<open>x\<close> carries both
  kinds, the transaction holds the removal of the insertion type and of the deletion type
  on the same range, after which \<open>x\<close> carries neither, and then, \<open>x\<close> being gathered a
  second time for its other mark, the deletion of that range: \<open>x\<close> does not stay in the
  document. The stripped characters keep their text. The other nodes of the scope are
  taken to have their keeping marks first; a node whose deleting mark comes first is left
  out.
\<close>

theorem stripped_node_loses_both_marks:
  assumes op: "opType = normalOp opType0"
    and nodes: "content (state_doc st) = content a @ content s1 @ [x] @ content s2 @ content b"
    and range: "addressedRange opType0 st = Some (f, t)"
    and cov: "coversNodes f t (int (length a)) (content s1 @ [x] @ content s2)"
    and ord: "\<forall>n\<in>set (content s1 @ content s2). stripsFirst opType n"
    and kept: "keepsContent opType kept"
  shows "(filter isTrackMark (nodeMarks x) = [kept] \<longrightarrow>
           (\<exists>before after.
              changeTrack opType0 st (state_tr st) =
                Inr (True,
                  \<lparr>tr_doc = a @ resolvedDoc (discardedType opType) s1 @ map stripTrack x @
                             resolvedDoc (discardedType opType) s2 @ b,
                   tr_steps = before @
                     [(RemoveMarkStep
                         (int (length (a @ resolvedDoc (discardedType opType) s1)))
                         (int (length (a @ resolvedDoc (discardedType opType) s1)) + int (length x))
                         (mark_name kept),
                       a @ resolvedDoc (discardedType opType) s1 @ x @ s2 @ b)] @ after,
                   tr_meta = [(''trackManualChanged'', MetaBool True)],
                   tr_selection = None\<rparr>))) \<and>
         (filter isTrackMark (nodeMarks x) = [kept, discarded] \<and> \<not> keepsContent opType discarded \<longrightarrow>
           (\<exists>before after.
              changeTrack opType0 st (state_tr st) =
                Inr (True,
                  \<lparr>tr_doc = a @ resolvedDoc (discardedType opType) s1 @
                             resolvedDoc (discardedType opType) s2 @ b,
                   tr_steps = before @
                     [(RemoveMarkStep
                         (int (length (a @ resolvedDoc (discardedType opType) s1)))
                         (int (length (a @ resolvedDoc (discardedType opType) s1)) + int (length x))
                         MARK_INSERTION,
                       a @ resolvedDoc (discardedType opType) s1 @ x @ s2 @ b),
                      (RemoveMarkStep
                         (int (length (a @ resolvedDoc (discardedType opType) s1)))
                         (int (length (a @ resolvedDoc (discardedType opType) s1)) + int (length x))
                         MARK_DELETION,
                       a @ resolvedDoc (discardedType opType) s1 @
                         map (withoutMarkType MARK_INSERTION) x @ s2 @ b),
                      (ReplaceStep
                         (int (length (a @ resolvedDoc (discardedType opType) s1)))
                         (int (length (a @ resolvedDoc (discardedType opType) s1)) + int (length x))
                         [],
                       a @ resolvedDoc (discardedType opType) s1 @ map stripTrack x @ s2 @ b)] @ after,
                   tr_meta = [(''trackManualChanged'', MetaBool True)],
                   tr_selection = None\<rparr>))) \<and>
         textOf (map stripTrack x) = textOf x \<and>
         list_all (\<lambda>ch. \<not> hasMarkType MARK_INSERTION ch \<and> \<not> hasMarkType MARK_DELETION ch)
           (map stripTrack x)"
proof (intro conjI impI)
  assume tms: "filter isTrackMark (nodeMarks x) = [kept]"
  from stripped_single [OF nodes range cov ord [unfolded op] kept [unfolded op] tms]
  show "\<exists>before after.
          changeTrack opType0 st (state_tr st) =
            Inr (True,
              \<lparr>tr_doc = a @ resolvedDoc (discardedType opType) s1 @ map stripTrack x @
                         resolvedDoc (discardedType opType) s2 @ b,
               tr_steps = before @
                 [(RemoveMarkStep
                     (int (length (a @ resolvedDoc (discardedType opType) s1)))
                     (int (length (a @ resolvedDoc (discardedType opType) s1)) + int (length x))
                     (mark_name kept),
                   a @ resolvedDoc (discardedType opType) s1 @ x @ s2 @ b)] @ after,
               tr_meta = [(''trackManualChanged'', MetaBool True)],
               tr_selection = None\<rparr>)"
    unfolding op .
next
  assume both: "filter isTrackMark (nodeMarks x) = [kept, discarded] \<and> \<not> keepsContent opType discarded"
  then have disc: "\<not> keepsContent opType discarded"
    and tms: "filter isTrackMark (nodeMarks x) = [kept, discarded]"
    by simp_all
  from stripped_then_deleted [OF nodes range cov ord [unfolded op] kept [unfolded op] disc [unfolded op] tms]
  show "\<exists>before after.
          changeTrack opType0 st (state_tr st) =
            Inr (True,
              \<lparr>tr_doc = a @ resolvedDoc (discardedType opType) s1 @
                         resolvedDoc (discardedType opType) s2 @ b,
               tr_steps = before @
                 [(RemoveMarkStep
                     (int (length (a @ resolvedDoc (discardedType opType) s1)))
                     (int (length (a @ resolvedDoc (discardedType opType) s1)) + int (length x))
                     MARK_INSERTION,
                   a @ resolvedDoc (discardedType opType) s1 @ x @ s2 @ b),
                  (RemoveMarkStep
                     (int (length (a @ resolvedDoc (discardedType opType) s1)))
                     (int (length (a @ resolvedDoc (discardedType opType) s1)) + int (length x))
                     MARK_DELETION,
                   a @ resolvedDoc (discardedType opType) s1 @
                     map (withoutMarkType MARK_INSERTION) x @ s2 @ b),
                  (ReplaceStep
                     (int (length (a @ resolvedDoc (discardedType opType) s1)))
                     (int (length (a @ resolvedDoc (discardedType opType) s1)) + int (length x))
                     [],
                   a @ resolvedDoc (discardedType opType) s1 @ map stripTrack x @ s2 @ b)] @ after,
               tr_meta = [(''trackManualChanged'', MetaBool True)],
               tr_selection = None\<rparr>)"
    unfolding op .
next
  show "textOf (map stripTrack x) = textOf x" by (rule textOf_stripTrack)
  show "list_all (\<lambda>ch. \<not> hasMarkType MARK_INSERTION ch \<and> \<not> hasMarkType MARK_DELETION ch)
          (map stripTrack x)"
    using trackFree_stripTrack by (simp add: list_all_iff trackFree_def)
qed

lemma mixedDraft_nodes:
  "content (state_doc mixedDraft) =
   content [] @ content (markedText [deletionByAlice] ''xy'') @
   [markedText [insertionByAlice, deletionByAlice] ''ab''] @ content (plainText ''c'') @ content []"
  by code_simp

lemma mixedDraft_range: "addressedRange TRACK_COMMAND_ACCEPT_ALL mixedDraft = Some (0, 5)"
  by code_simp

lemma mixedDraft_covered:
  "coversNodes 0 5 (int (length ([] :: doc)))
     (content (markedText [deletionByAlice] ''xy'') @
      [markedText [insertionByAlice, deletionByAlice] ''ab''] @ content (plainText ''c''))"
  by code_simp

lemma mixedDraft_order:
  "\<forall>n\<in>set (content (markedText [deletionByAlice] ''xy'') @ content (plainText ''c'')).
     stripsFirst TRACK_COMMAND_ACCEPT n"
  by code_simp

lemma mixedDraft_resolved:
  "resolvedDoc (discardedType TRACK_COMMAND_ACCEPT) (markedText [deletionByAlice] ''xy'') = []"
  "resolvedDoc (discardedType TRACK_COMMAND_ACCEPT) (plainText ''c'') = plainText ''c''"
  "map (withoutMarkType MARK_INSERTION) (markedText [insertionByAlice, deletionByAlice] ''ab'') =
   markedText [deletionByAlice] ''ab''"
  "map stripTrack (markedText [insertionByAlice, deletionByAlice] ''ab'') = plainText ''ab''"
  by code_simp+

lemma cursorInWorld_nodes:
  "content (state_doc cursorInWorld) =
   content (plainText ''hello '') @ content [] @ [markedText [deletionByAlice] ''world''] @
   content [] @ content []"
  by code_simp

lemma cursorInWorld_range: "addressedRange TRACK_COMMAND_REJECT cursorInWorld = Some (6, 11)"
  by code_simp

lemma cursorInWorld_covered:
  "coversNodes 6 11 (int (length (plainText ''hello '')))
     (content [] @ [markedText [deletionByAlice] ''world''] @ content [])"
  by code_simp

lemma cursorInWorld_resolved:
  "resolvedDoc (discardedType TRACK_COMMAND_REJECT) [] = []"
  "map stripTrack (markedText [deletionByAlice] ''world'') = plainText ''world''"
  by code_simp+

text \<open>
  Accept-all on \<open>xy\<close> under a deletion mark, \<open>ab\<close> under both marks and plain \<open>c\<close>:
  \<open>ab\<close>, moved to the front by the deletion of \<open>xy\<close>, is stripped of both marks at
  \<open>(0, 2)\<close> and then deleted. Reject with the cursor in the deleted \<open>world\<close>: the one
  removal, and \<open>hello world\<close> without marks.
\<close>

theorem stripped_node_examples:
  "(\<exists>before after.
      changeTrack TRACK_COMMAND_ACCEPT_ALL mixedDraft (state_tr mixedDraft) =
        Inr (True,
          \<lparr>tr_doc = plainText ''c'',
           tr_steps = before @
             [(RemoveMarkStep 0 2 MARK_INSERTION,
               markedText [insertionByAlice, deletionByAlice] ''ab'' @ plainText ''c''),
              (RemoveMarkStep 0 2 MARK_DELETION,
               markedText [deletionByAlice] ''ab'' @ plainText ''c''),
              (ReplaceStep 0 2 [], plainText ''ab'' @ plainText ''c'')] @ after,
           tr_meta = [(''trackManualChanged'', MetaBool True)],
           tr_selection = None\<rparr>)) \<and>
   (\<exists>before after.
      changeTrack TRACK_COMMAND_REJECT cursorInWorld (state_tr cursorInWorld) =
        Inr (True,
          \<lparr>tr_doc = plainText ''hello '' @ plainText ''world'',
           tr_steps = before @
             [(RemoveMarkStep 6 11 MARK_DELETION,
               plainText ''hello '' @ markedText [deletionByAlice] ''world'')] @ after,
           tr_meta = [(''trackManualChanged'', MetaBool True)],
           tr_selection = None\<rparr>))"
proof
  have op: "TRACK_COMMAND_ACCEPT = normalOp TRACK_COMMAND_ACCEPT_ALL"
    by (simp add: normalOp_def)
  have kept: "keepsContent TRACK_COMMAND_ACCEPT insertionByAlice"
    and disc: "\<not> keepsContent TRACK_COMMAND_ACCEPT deletionByAlice"
    by (simp_all add: keepsContent_def insertionByAlice_def deletionByAlice_def
          MARK_INSERTION_def MARK_DELETION_def)
  have tms: "filter isTrackMark (nodeMarks (markedText [insertionByAlice, deletionByAlice] ''ab'')) =
             [insertionByAlice, deletionByAlice]"
    by (simp add: nodeMarks_def markedText_def isTrackMark_def insertionByAlice_def deletionByAlice_def
          MARK_INSERTION_def MARK_DELETION_def)
  have len: "int (length (markedText [insertionByAlice, deletionByAlice] ''ab'')) = 2"
    by (simp add: markedText_def)
  from stripped_node_loses_both_marks [OF op mixedDraft_nodes mixedDraft_range mixedDraft_covered
      mixedDraft_order kept, of deletionByAlice] tms disc
  show "\<exists>before after.
      changeTrack TRACK_COMMAND_ACCEPT_ALL mixedDraft (state_tr mixedDraft) =
        Inr (True,
          \<lparr>tr_doc = plainText ''c'',
           tr_steps = before @
             [(RemoveMarkStep 0 2 MARK_INSERTION,
               markedText [insertionByAlice, deletionByAlice] ''ab'' @ plainText ''c''),
              (RemoveMarkStep 0 2 MARK_DELETION,
               markedText [deletionByAlice] ''ab'' @ plainText ''c''),
              (ReplaceStep 0 2 [], plainText ''ab'' @ plainText ''c'')] @ after,
           tr_meta = [(''trackManualChanged'', MetaBool True)],
           tr_selection = None\<rparr>)"
    unfolding mixedDraft_resolved len by simp
next
  have op: "TRACK_COMMAND_REJECT = normalOp TRACK_COMMAND_REJECT"
    by (simp add: normalOp_def)
  have kept: "keepsContent TRACK_COMMAND_REJECT deletionByAlice"
    by (simp add: keepsContent_def deletionByAlice_def)
  have tms: "filter isTrackMark (nodeMarks (markedText [deletionByAlice] ''world'')) = [deletionByAlice]"
    by (simp add: nodeMarks_def markedText_def isTrackMark_def deletionByAlice_def)
  have ord: "\<forall>n\<in>set (content ([] :: doc) @ content ([] :: doc)). stripsFirst TRACK_COMMAND_REJECT n"
    by simp
  have len: "int (length (plainText ''hello '')) = 6"
    "int (length (markedText [deletionByAlice] ''world'')) = 5"
    "mark_name deletionByAlice = MARK_DELETION"
    by (simp_all add: plainText_def markedText_def deletionByAlice_def)
  from stripped_node_loses_both_marks [OF op cursorInWorld_nodes cursorInWorld_range
      cursorInWorld_covered ord kept] tms
  show "\<exists>before after.
      changeTrack TRACK_COMMAND_REJECT cursorInWorld (state_tr cursorInWorld) =
        Inr (True,
          \<lparr>tr_doc = plainText ''hello '' @ plainText ''world'',
           tr_steps = before @
             [(RemoveMarkStep 6 11 MARK_DELETION,
               plainText ''hello '' @ markedText [deletionByAlice] ''world'')] @ after,
           tr_meta = [(''trackManualChanged'', MetaBool True)],
           tr_selection = None\<rparr>)"
    unfolding cursorInWorld_resolved by (simp add: len)
qed

section \<open>The track interceptor\<close>

lemma appendTransaction_index_all_flagged:
  assumes "list_all flagged transactions" and "getSelfExt ed \<noteq> None"
  shows "appendTransaction_index ime (Some ed) now transactions oldState newState = Inr None"
proof -
  have "filter isRelevant_index transactions = []"
    using assms(1) by (auto simp: filter_empty_conv list_all_iff flagged_def isRelevant_index_def)
  then show ?thesis
    using assms(2) by (auto simp: appendTransaction_index_def Let_def)
qed

lemma appendTransaction_part000_all_flagged:
  assumes "list_all flagged transactions"
  shows "appendTransaction_part000 ime opts now transactions oldState newState = Inr None"
proof -
  have "\<not> hasRelevantChanges transactions"
    using assms by (auto simp: hasRelevantChanges_def list_all_iff list_ex_iff flagged_def)
  then show ?thesis by (simp add: appendTransaction_part000_def)
qed

lemma appendTransaction_index_tagged:
  assumes "appendTransaction_index ime extensionEditor now transactions oldState newState = Inr (Some tr)"
  shows "truthy (getMeta tr ''trackManualChanged'')"
  using assms
  by (auto simp: appendTransaction_index_def Let_def thenE_def setMeta_def getMeta_def truthy_def
           split: option.splits sum.splits if_splits prod.splits)

lemma changeTrack_tagged:
  assumes "changeTrack opType st tr = Inr (True, tr')" and "docChanged tr'"
  shows "truthy (getMeta tr' ''trackManualChanged'')"
  using assms
  by (auto simp: changeTrack_def Let_def docChanged_def setMeta_def getMeta_def truthy_def
           split: sum.splits if_splits prod.splits)

lemma changeTrack_result_flagged_or_unchanged:
  assumes "changeTrack opType st tr = Inr (True, tr')"
  shows "flagged tr' \<or> \<not> docChanged tr'"
  using changeTrack_tagged [OF assms] by (auto simp: flagged_def)

lemma changeTrack_not_reintercepted:
  assumes "changeTrack opType st tr = Inr (True, tr')"
  shows "appendTransaction_part000 ime opts now [tr'] oldState newState = Inr None"
    and "getSelfExt ed \<noteq> None \<Longrightarrow>
         appendTransaction_index ime (Some ed) now [tr'] oldState newState = Inr None"
proof -
  from changeTrack_result_flagged_or_unchanged [OF assms]
  have r: "flagged tr' \<or> \<not> docChanged tr'" .
  then have "\<not> hasRelevantChanges [tr']"
    by (auto simp: hasRelevantChanges_def flagged_def)
  then show "appendTransaction_part000 ime opts now [tr'] oldState newState = Inr None"
    by (simp add: appendTransaction_part000_def)
  from r have "filter isRelevant_index [tr'] = []"
    by (auto simp: isRelevant_index_def flagged_def)
  then show "getSelfExt ed \<noteq> None \<Longrightarrow>
         appendTransaction_index ime (Some ed) now [tr'] oldState newState = Inr None"
    by (auto simp: appendTransaction_index_def Let_def)
qed

text \<open>
  C4: the claim is that every transaction flagged \<^verbatim>\<open>trackManualChanged\<close>, \<^verbatim>\<open>history$\<close> or
  \<^verbatim>\<open>y-sync$\<close> with \<^verbatim>\<open>isChangeOrigin\<close> is excluded from interception. In both variants a list
  of flagged transactions gives \<open>null\<close> (\<open>appendTransaction_index_all_flagged\<close>,
  \<open>appendTransaction_part000_all_flagged\<close>), what \<^verbatim>\<open>index.ts\<close> returns is tagged
  (\<open>appendTransaction_index_tagged\<close>) and a change made by \<^verbatim>\<open>changeTrack\<close> is not
  intercepted again (\<open>changeTrack_not_reintercepted\<close>). But the loop of \<^verbatim>\<open>part_000\<close>
  skips only the first two flags: a synced transaction that arrives together with an
  unflagged one has its steps processed. Here the synced insertion of \<open>x\<close> alone, and
  the local bold step alone, give \<open>null\<close>; together, the loop puts Alice's insertion
  mark on the remote \<open>x\<close> and the result is not \<open>null\<close>, while \<^verbatim>\<open>index.ts\<close> returns
  \<open>null\<close> on the same input.
\<close>

theorem part000_intercepts_synced_transaction:
  "appendTransaction_part000 initialIme aliceOptions 0 [remoteInsertX]
     (docState []) (docState (plainText ''x'')) = Inr None \<and>
   appendTransaction_part000 initialIme aliceOptions 0 [localBoldX]
     (docState []) (docState (markedText [boldMark] ''x'')) = Inr None \<and>
   (\<exists>tr. processTransactions_part000 aliceOptions 0 [remoteInsertX, localBoldX]
           (docState (markedText [boldMark] ''x'')) = Inr (tr, True) \<and>
         tr_doc tr = markedText [insertionByAlice, boldMark] ''x'') \<and>
   appendTransaction_part000 initialIme aliceOptions 0 [remoteInsertX, localBoldX]
     (docState []) (docState (markedText [boldMark] ''x'')) \<noteq> Inr None \<and>
   appendTransaction_index initialIme (Some (trackingEditor (docState (markedText [boldMark] ''x'')))) 0
     [remoteInsertX, localBoldX] (docState []) (docState (markedText [boldMark] ''x'')) = Inr None"
proof (intro conjI)
  show "appendTransaction_part000 initialIme aliceOptions 0 [remoteInsertX]
     (docState []) (docState (plainText ''x'')) = Inr None"
    by code_simp
  show "appendTransaction_part000 initialIme aliceOptions 0 [localBoldX]
     (docState []) (docState (markedText [boldMark] ''x'')) = Inr None"
    by code_simp
  have "processTransactions_part000 aliceOptions 0 [remoteInsertX, localBoldX]
           (docState (markedText [boldMark] ''x'')) =
        Inr (\<lparr>tr_doc = markedText [insertionByAlice, boldMark] ''x'',
              tr_steps = [(AddMarkStep 0 1 insertionByAlice, markedText [boldMark] ''x'')],
              tr_meta = [], tr_selection = None\<rparr>, True)"
    by code_simp
  then show "\<exists>tr. processTransactions_part000 aliceOptions 0 [remoteInsertX, localBoldX]
           (docState (markedText [boldMark] ''x'')) = Inr (tr, True) \<and>
         tr_doc tr = markedText [insertionByAlice, boldMark] ''x''"
    by simp
  have "appendTransaction_part000 initialIme aliceOptions 0 [remoteInsertX, localBoldX]
     (docState []) (docState (markedText [boldMark] ''x'')) = Inl TypeError"
    by code_simp
  then show "appendTransaction_part000 initialIme aliceOptions 0 [remoteInsertX, localBoldX]
     (docState []) (docState (markedText [boldMark] ''x'')) \<noteq> Inr None"
    by simp
  show "appendTransaction_index initialIme (Some (trackingEditor (docState (markedText [boldMark] ''x'')))) 0
     [remoteInsertX, localBoldX] (docState []) (docState (markedText [boldMark] ''x'')) = Inr None"
    by code_simp
qed

text \<open>
  C3: the claim is that a removal of content under an insertion mark proceeds unmarked.
  With tracking enabled and \<open>cat\<close> wholly under an insertion mark, deleting \<open>a\<close> makes
  \<^verbatim>\<open>index.ts\<close> return a corrective transaction that puts \<open>a\<close> back under both the
  insertion and a deletion mark: it has no test for an insertion mark. \<^verbatim>\<open>part_000\<close>,
  which has the test, returns \<open>null\<close> there. (For content without an insertion mark
  see \<open>plain_deletion_tracked\<close>.)
\<close>

theorem index_marks_deleted_insertion:
  "(\<exists>tr. appendTransaction_index initialIme (Some (trackingEditor (docState ctInserted))) 0
           [userTransaction catInserted (ReplaceStep 1 2 []) ctInserted]
           (docState catInserted) (docState ctInserted) = Inr (Some tr) \<and>
         tr_doc tr = markedText [insertionByAlice] ''c'' @
                     markedText [insertionByAlice, deletionByAlice] ''a'' @
                     markedText [insertionByAlice] ''t'') \<and>
   appendTransaction_part000 initialIme aliceOptions 0
     [userTransaction catInserted (ReplaceStep 1 2 []) ctInserted]
     (docState catInserted) (docState ctInserted) = Inr None"
proof (intro conjI)
  have "appendTransaction_index initialIme (Some (trackingEditor (docState ctInserted))) 0
           [userTransaction catInserted (ReplaceStep 1 2 []) ctInserted]
           (docState catInserted) (docState ctInserted) =
        Inr (Some \<lparr>tr_doc = markedText [insertionByAlice] ''c'' @
                     markedText [insertionByAlice, deletionByAlice] ''a'' @
                     markedText [insertionByAlice] ''t'',
                   tr_steps = [(ReplaceStep 1 1 (markedText [insertionByAlice] ''a''), ctInserted),
                               (AddMarkStep 1 2 deletionByAlice, catInserted)],
                   tr_meta = [(''trackManualChanged'', MetaBool True)],
                   tr_selection = None\<rparr>)"
    by code_simp
  then show "\<exists>tr. appendTransaction_index initialIme (Some (trackingEditor (docState ctInserted))) 0
           [userTransaction catInserted (ReplaceStep 1 2 []) ctInserted]
           (docState catInserted) (docState ctInserted) = Inr (Some tr) \<and>
         tr_doc tr = markedText [insertionByAlice] ''c'' @
                     markedText [insertionByAlice, deletionByAlice] ''a'' @
                     markedText [insertionByAlice] ''t''"
    by simp
  show "appendTransaction_part000 initialIme aliceOptions 0
     [userTransaction catInserted (ReplaceStep 1 2 []) ctInserted]
     (docState catInserted) (docState ctInserted) = Inr None"
    by code_simp
qed

lemma plain_deletion_tracked:
  "(\<exists>tr. appendTransaction_index initialIme (Some (trackingEditor (docState (plainText ''hello '')))) 0
           [userTransaction (plainText ''hello world'') (ReplaceStep 6 11 []) (plainText ''hello '')]
           (docState (plainText ''hello world'')) (docState (plainText ''hello '')) = Inr (Some tr) \<and>
         tr_doc tr = state_doc helloWorldDeleted \<and>
         truthy (getMeta tr ''trackManualChanged'')) \<and>
   (\<exists>tr. processTransactions_part000 aliceOptions 0
           [userTransaction (plainText ''hello world'') (ReplaceStep 6 11 []) (plainText ''hello '')]
           (docState (plainText ''hello '')) = Inr (tr, True) \<and>
         tr_doc tr = state_doc helloWorldDeleted) \<and>
   appendTransaction_part000 initialIme aliceOptions 0
     [userTransaction (plainText ''hello world'') (ReplaceStep 6 11 []) (plainText ''hello '')]
     (docState (plainText ''hello world'')) (docState (plainText ''hello '')) = Inl TypeError"
proof (intro conjI)
  have "appendTransaction_index initialIme (Some (trackingEditor (docState (plainText ''hello '')))) 0
           [userTransaction (plainText ''hello world'') (ReplaceStep 6 11 []) (plainText ''hello '')]
           (docState (plainText ''hello world'')) (docState (plainText ''hello '')) =
        Inr (Some \<lparr>tr_doc = state_doc helloWorldDeleted,
                   tr_steps = [(ReplaceStep 6 6 (plainText ''world''), plainText ''hello ''),
                               (AddMarkStep 6 11 deletionByAlice, plainText ''hello world'')],
                   tr_meta = [(''trackManualChanged'', MetaBool True)],
                   tr_selection = None\<rparr>)"
    by code_simp
  then show "\<exists>tr. appendTransaction_index initialIme (Some (trackingEditor (docState (plainText ''hello '')))) 0
           [userTransaction (plainText ''hello world'') (ReplaceStep 6 11 []) (plainText ''hello '')]
           (docState (plainText ''hello world'')) (docState (plainText ''hello '')) = Inr (Some tr) \<and>
         tr_doc tr = state_doc helloWorldDeleted \<and>
         truthy (getMeta tr ''trackManualChanged'')"
    by (simp add: getMeta_def truthy_def)
  have "processTransactions_part000 aliceOptions 0
           [userTransaction (plainText ''hello world'') (ReplaceStep 6 11 []) (plainText ''hello '')]
           (docState (plainText ''hello '')) =
        Inr (\<lparr>tr_doc = state_doc helloWorldDeleted,
              tr_steps = [(ReplaceStep 6 6 (plainText ''world''), plainText ''hello ''),
                          (AddMarkStep 6 11 deletionByAlice, plainText ''hello world'')],
              tr_meta = [], tr_selection = None\<rparr>, True)"
    by code_simp
  then show "\<exists>tr. processTransactions_part000 aliceOptions 0
           [userTransaction (plainText ''hello world'') (ReplaceStep 6 11 []) (plainText ''hello '')]
           (docState (plainText ''hello '')) = Inr (tr, True) \<and>
         tr_doc tr = state_doc helloWorldDeleted"
    by simp
  show "appendTransaction_part000 initialIme aliceOptions 0
     [userTransaction (plainText ''hello world'') (ReplaceStep 6 11 []) (plainText ''hello '')]
     (docState (plainText ''hello world'')) (docState (plainText ''hello '')) = Inl TypeError"
    by code_simp
qed

lemma appendTransaction_ignores_composition:
  "appendTransaction_index ime extensionEditor now transactions oldState newState =
   appendTransaction_index ime' extensionEditor now transactions oldState newState"
  "appendTransaction_part000 ime opts now transactions oldState newState =
   appendTransaction_part000 ime' opts now transactions oldState newState"
  by (simp_all add: appendTransaction_index_def appendTransaction_part000_def)

text \<open>
  C7: the claim is that no corrective change is produced while a composition is in
  progress. After \<^verbatim>\<open>compositionstart\<close> and \<^verbatim>\<open>compositionupdate\<close> the status is
  \<^verbatim>\<open>IME_STATUS_CONTINUE\<close>; an insertion of \<open>n\<close> arriving then makes \<^verbatim>\<open>index.ts\<close> return
  a corrective transaction that marks \<open>n\<close> as inserted, and \<^verbatim>\<open>part_000\<close> does not
  return \<open>null\<close> either. Neither variant reads the flags
  (\<open>appendTransaction_ignores_composition\<close>).
\<close>

theorem composing_input_is_marked:
  "composingStatus (compositionupdate (compositionstart initialIme)) = IME_STATUS_CONTINUE \<and>
   (\<exists>tr. appendTransaction_index (compositionupdate (compositionstart initialIme))
           (Some (trackingEditor (docState (plainText ''n'')))) 0
           [userTransaction [] (ReplaceStep 0 0 (plainText ''n'')) (plainText ''n'')]
           (docState []) (docState (plainText ''n'')) = Inr (Some tr) \<and>
         tr_doc tr = markedText [insertionByAlice] ''n'') \<and>
   appendTransaction_part000 (compositionupdate (compositionstart initialIme)) aliceOptions 0
     [userTransaction [] (ReplaceStep 0 0 (plainText ''n'')) (plainText ''n'')]
     (docState []) (docState (plainText ''n'')) \<noteq> Inr None"
proof (intro conjI)
  show "composingStatus (compositionupdate (compositionstart initialIme)) = IME_STATUS_CONTINUE"
    by (simp add: compositionupdate_def)
  have "appendTransaction_index (compositionupdate (compositionstart initialIme))
           (Some (trackingEditor (docState (plainText ''n'')))) 0
           [userTransaction [] (ReplaceStep 0 0 (plainText ''n'')) (plainText ''n'')]
           (docState []) (docState (plainText ''n'')) =
        Inr (Some \<lparr>tr_doc = markedText [insertionByAlice] ''n'',
                   tr_steps = [(AddMarkStep 0 1 insertionByAlice, plainText ''n'')],
                   tr_meta = [(''trackManualChanged'', MetaBool True)],
                   tr_selection = None\<rparr>)"
    by code_simp
  then show "\<exists>tr. appendTransaction_index (compositionupdate (compositionstart initialIme))
           (Some (trackingEditor (docState (plainText ''n'')))) 0
           [userTransaction [] (ReplaceStep 0 0 (plainText ''n'')) (plainText ''n'')]
           (docState []) (docState (plainText ''n'')) = Inr (Some tr) \<and>
         tr_doc tr = markedText [insertionByAlice] ''n''"
    by simp
  have "appendTransaction_part000 (compositionupdate (compositionstart initialIme)) aliceOptions 0
     [userTransaction [] (ReplaceStep 0 0 (plainText ''n'')) (plainText ''n'')]
     (docState []) (docState (plainText ''n'')) = Inl TypeError"
    by code_simp
  then show "appendTransaction_part000 (compositionupdate (compositionstart initialIme)) aliceOptions 0
     [userTransaction [] (ReplaceStep 0 0 (plainText ''n'')) (plainText ''n'')]
     (docState []) (docState (plainText ''n'')) \<noteq> Inr None"
    by simp
qed

section \<open>The minute clock\<close>

lemma Math_round_minutes: "Math_round (of_int t / 1000 / 60) = (t + 30000) div 60000"
proof -
  have eq: "(of_int t :: real) / 1000 / 60 + 1 / 2 = of_int (t + 30000) / of_int 60000"
    by simp
  show ?thesis
    unfolding Math_round_def eq by (rule floor_divide_of_int_eq)
qed

lemma half_minute_div:
  fixes r :: int
  assumes "0 \<le> r" "r < 60000"
  shows "(r + 30000) div 60000 = (if r < 30000 then 0 else 1)"
proof (cases "r < 30000")
  case True
  with assms have "(r + 30000) div 60000 = 0" by (simp add: div_pos_pos_trivial)
  with True show ?thesis by simp
next
  case False
  with assms have "(r + 30000) div 60000 = (r + 30000 - 60000) div 60000 + 1"
    by (intro div_pos_geq) simp_all
  moreover from False assms have "(r + 30000 - 60000) div 60000 = 0"
    by (simp add: div_pos_pos_trivial)
  ultimately show ?thesis using False by simp
qed

lemma nearest_minute_div:
  fixes t :: int
  shows "(t + 30000) div 60000 = t div 60000 + (if t mod 60000 < 30000 then 0 else 1)"
proof -
  have "t + 30000 = (t mod 60000 + 30000) + t div 60000 * 60000"
    using div_mult_mod_eq [of t 60000] by linarith
  then have "(t + 30000) div 60000 = ((t mod 60000 + 30000) + t div 60000 * 60000) div 60000"
    by (rule arg_cong)
  also have "\<dots> = (t mod 60000 + 30000) div 60000 + t div 60000"
    by (subst div_mult_self1) simp_all
  finally show ?thesis
    using half_minute_div [of "t mod 60000"] by simp
qed

text \<open>
  C8 (as stated): for every time \<open>t\<close> in milliseconds, \<open>getMinuteTime\<close> equals
  \<open>t - t mod 60000\<close>. At \<open>t = 30000\<close> (half past the minute) the code answers
  \<open>60000\<close>, the next minute, not \<open>0\<close>.
\<close>

theorem getMinuteTime_not_truncation: "getMinuteTime 30000 \<noteq> 30000 - 30000 mod 60000"
  unfolding getMinuteTime_def Math_round_minutes by simp

text \<open>
  C8 (amended): the stamp is the current time rounded to the nearest whole minute, a half
  minute going up: in the first half of a minute it is the start of that minute, from
  the half minute on it is the start of the next one.
\<close>

theorem getMinuteTime_nearest_minute:
  "getMinuteTime t = (if t mod 60000 < 30000 then t - t mod 60000 else t - t mod 60000 + 60000)"
proof -
  have "t - t mod 60000 = t div 60000 * 60000"
    by (simp only: minus_mod_eq_div_mult)
  then show ?thesis
    unfolding getMinuteTime_def Math_round_minutes nearest_minute_div
    by (simp add: algebra_simps)
qed

end
